theory Spec2Isabelle
  imports Main
begin

section \<open>Sparse containers and the graph handle\<close>

text \<open>
  A sparse Vector over the index domain \<open>0..<n\<close> is a partial function from indices to
  values: an absent entry is \<open>None\<close> (it stands for "no distance known", never for 0).
  A sparse Matrix is indexed by row and column. The size \<open>n\<close> is passed along
  explicitly; every operation reads and writes indices below \<open>n\<close> only.

  Weights and distances are values of the matrix's dtype: the code creates \<open>d\<close> and
  \<open>cur\<close> with \<open>A.dtype\<close> (only a boolean matrix is promoted, to the 64-bit \<open>int\<close>).
  The model covers the signed integer dtypes: a value is an \<open>int\<close>, the graph handle
  carries the width \<open>bits\<close> of its dtype (8, 16, 32 or 64), and the arithmetic of the
  code (the \<open>plus\<close> of \<open>min_plus\<close>, the multiplication by the iso value, the levels of
  the breadth-first search) wraps around in two's complement, as integer arithmetic does
  in GraphBLAS. Floating-point and unsigned dtypes are outside the model, and no
  statement below speaks about them. A cutoff is an integer.
\<close>

type_synonym vec = "nat \<Rightarrow> int option"
type_synonym mat = "nat \<Rightarrow> nat \<Rightarrow> int option"

text \<open>\<open>Undetermined\<close> marks the one outcome that the sources at hand leave open: the
  floor division of the cutoff by an iso value 0 (the scalar's type, and with it what its
  division by zero does, belongs to a module that is not among the sources). No statement
  below covers it.\<close>

datatype error = Unbounded | KeyError | Undetermined

text \<open>
  The graph handle. Nodes are identified with their ids (\<open>G._key_to_id\<close> is taken to be
  the identity on \<open>0..<nnodes\<close>; any other key raises \<open>KeyError\<close>).
  \<open>is_iso\<close> and \<open>iso_value\<close> are cached properties of the handle whose code is not part
  of the sources at hand; they are fields here, constrained by \<open>wf_graph\<close> below.
  \<open>bits\<close> is the width of the matrix's signed integer dtype.
\<close>

record graph =
  nnodes :: nat
  adj :: mat
  directed :: bool
  is_iso :: bool
  iso_value :: int
  bits :: nat

definition wf_graph :: "graph \<Rightarrow> bool" where
  "wf_graph G \<longleftrightarrow>
     (\<forall>i j. adj G i j \<noteq> None \<longrightarrow> i < nnodes G \<and> j < nnodes G) \<and>
     (\<not> directed G \<longrightarrow> (\<forall>i j. adj G i j = adj G j i)) \<and>
     (is_iso G \<longrightarrow> (\<forall>i j w. adj G i j = Some w \<longrightarrow> w = iso_value G))"

text \<open>A matrix built from its list of entries, as \<open>Matrix.from_coo\<close> does; used to write
  down concrete graphs.\<close>

definition from_coo :: "((nat \<times> nat) \<times> int) list \<Rightarrow> mat" where
  "from_coo es i j = map_of es (i, j)"

text \<open>Modelled from the spec: the off-diagonal view, "A with self-loops removed"
  (property \<open>offdiag\<close> of the graph handle, whose code is missing).\<close>

definition offdiag :: "graph \<Rightarrow> mat" where
  "offdiag G i j = (if i < nnodes G \<and> j < nnodes G \<and> i \<noteq> j then adj G i j else None)"

text \<open>Modelled from the spec: the diagonal vector, "the self-loop weights"
  (property \<open>diag\<close> of the graph handle, whose code is missing).\<close>

definition diag :: "graph \<Rightarrow> vec" where
  "diag G i = (if i < nnodes G then adj G i i else None)"

text \<open>Modelled from the spec: "presence of a negative self-loop"
  (property \<open>has_negative_diagonal\<close>, whose code is missing).\<close>

definition has_negative_diagonal :: "graph \<Rightarrow> bool" where
  "has_negative_diagonal G \<longleftrightarrow>
     list_ex (\<lambda>i. case adj G i i of Some w \<Rightarrow> w < 0 | None \<Rightarrow> False) [0..<nnodes G]"

text \<open>Modelled from the spec: "presence of any negative edge"
  (property \<open>has_negative_edges+\<close>, self-loops included; its code is missing).\<close>

definition has_negative_edges_plus :: "graph \<Rightarrow> bool" where
  "has_negative_edges_plus G \<longleftrightarrow>
     list_ex (\<lambda>i. list_ex (\<lambda>j. case adj G i j of Some w \<Rightarrow> w < 0 | None \<Rightarrow> False)
        [0..<nnodes G]) [0..<nnodes G]"

text \<open>Modelled from the spec: "presence of any negative edge", read on the off-diagonal
  view (property \<open>has_negative_edges-\<close>; its code is missing).\<close>

definition has_negative_edges_minus :: "graph \<Rightarrow> bool" where
  "has_negative_edges_minus G \<longleftrightarrow>
     list_ex (\<lambda>i. list_ex (\<lambda>j. case offdiag G i j of Some w \<Rightarrow> w < 0 | None \<Rightarrow> False)
        [0..<nnodes G]) [0..<nnodes G]"

text \<open>Modelled from the spec: "per-node degree" as a sparse vector with an entry exactly
  at the nodes of nonzero degree (properties \<open>total_degrees-\<close> for a directed graph: in-
  plus out-degree; \<open>degrees-\<close> for an undirected one: the row degree; both on the
  off-diagonal view; their code is missing). Only the structure of the vector is used.\<close>

definition row_degree :: "graph \<Rightarrow> nat \<Rightarrow> nat" where
  "row_degree G i = length (filter (\<lambda>j. offdiag G i j \<noteq> None) [0..<nnodes G])"

definition col_degree :: "graph \<Rightarrow> nat \<Rightarrow> nat" where
  "col_degree G j = length (filter (\<lambda>i. offdiag G i j \<noteq> None) [0..<nnodes G])"

definition degrees :: "graph \<Rightarrow> vec" where
  "degrees G i =
     (let k = (if directed G then row_degree G i + col_degree G i else row_degree G i)
      in if i < nnodes G \<and> 0 < k then Some (int k) else None)"

subsection \<open>The sparse-algebra operations the algorithms use\<close>

definition nvals :: "nat \<Rightarrow> vec \<Rightarrow> nat" where
  "nvals n v = length (filter (\<lambda>i. v i \<noteq> None) [0..<n])"

text \<open>\<open>min\<close> with absence as the identity (the monoid of the min-plus semiring).\<close>

fun opt_min :: "int option \<Rightarrow> int option \<Rightarrow> int option" where
  "opt_min None b = b"
| "opt_min (Some x) None = Some x"
| "opt_min (Some x) (Some y) = Some (min x y)"

text \<open>Two's complement: the value that a signed integer dtype of width \<open>b\<close> stores
  for the mathematical result \<open>x\<close>; and the range of the dtype.\<close>

definition wrap :: "nat \<Rightarrow> int \<Rightarrow> int" where
  "wrap b x = (x + 2 ^ (b - 1)) mod 2 ^ b - 2 ^ (b - 1)"

definition in_range :: "nat \<Rightarrow> int \<Rightarrow> bool" where
  "in_range b x \<longleftrightarrow> - (2 ^ (b - 1)) \<le> x \<and> x < 2 ^ (b - 1)"

text \<open>\<open>plus\<close> on a pair of entries, in the dtype of width \<open>b\<close>: a product term exists
  only where both entries do.\<close>

fun opt_plus :: "nat \<Rightarrow> int option \<Rightarrow> int option \<Rightarrow> int option" where
  "opt_plus b (Some x) (Some w) = Some (wrap b (x + w))"
| "opt_plus b _ _ = None"

text \<open>\<open>min_plus(cur @ A)\<close>: entry \<open>j\<close> is the least \<open>cur[i] + A[i, j]\<close> over the rows
  \<open>i\<close> where both are present, and is absent when there is none.\<close>

definition vxm_min_plus :: "nat \<Rightarrow> nat \<Rightarrow> vec \<Rightarrow> mat \<Rightarrow> vec" where
  "vxm_min_plus b n cur A j =
     (if j < n then foldr (\<lambda>i acc. opt_min (opt_plus b (cur i) (A i j)) acc) [0..<n] None
      else None)"

text \<open>\<open>select.valuele(cur, cutoff)\<close>, applied only when a cutoff is given.\<close>

definition select_valuele :: "vec \<Rightarrow> int \<Rightarrow> vec" where
  "select_valuele cur c j = (case cur j of Some x \<Rightarrow> if x \<le> c then Some x else None | None \<Rightarrow> None)"

definition apply_cutoff :: "int option \<Rightarrow> vec \<Rightarrow> vec" where
  "apply_cutoff cutoff cur = (case cutoff of None \<Rightarrow> cur | Some c \<Rightarrow> select_valuele cur c)"

text \<open>\<open>select.valuelt(diag, 0)\<close>.\<close>

definition select_valuelt :: "vec \<Rightarrow> int \<Rightarrow> vec" where
  "select_valuelt v c j = (case v j of Some x \<Rightarrow> if x < c then Some x else None | None \<Rightarrow> None)"

text \<open>
  The improvement mask of one round:
  \<^verbatim>\<open>mask << one(cur); mask(binary.second) << binary.lt(cur & d)\<close>.
  The first statement puts \<open>True\<close> wherever \<open>cur\<close> has an entry; the second overwrites
  the mask with \<open>cur < d\<close> wherever both \<open>cur\<close> and \<open>d\<close> have one.
\<close>

definition improve_mask :: "vec \<Rightarrow> vec \<Rightarrow> nat \<Rightarrow> bool option" where
  "improve_mask cur d j =
     (case cur j of None \<Rightarrow> None
      | Some x \<Rightarrow> (case d j of None \<Rightarrow> Some True | Some y \<Rightarrow> Some (x < y)))"

text \<open>\<^verbatim>\<open>cur(mask.V, replace) << cur\<close>: keep the entries whose mask value is true, clear
  all others.\<close>

definition keep_masked :: "(nat \<Rightarrow> bool option) \<Rightarrow> vec \<Rightarrow> vec" where
  "keep_masked msk cur j = (if msk j = Some True then cur j else None)"

text \<open>\<^verbatim>\<open>d(cur.S) << cur\<close>: overwrite \<open>d\<close> where \<open>cur\<close> has an entry, keep it elsewhere.\<close>

definition assign_struct :: "vec \<Rightarrow> vec \<Rightarrow> vec" where
  "assign_struct d cur j = (case cur j of Some x \<Rightarrow> Some x | None \<Rightarrow> d j)"

text \<open>\<^verbatim>\<open>mask << binary.lt(cur & d); mask.reduce(monoid.lor)\<close>: is some entry present in
  both strictly smaller in \<open>cur\<close>?\<close>

definition any_lt :: "nat \<Rightarrow> vec \<Rightarrow> vec \<Rightarrow> bool" where
  "any_lt n cur d \<longleftrightarrow>
     list_ex (\<lambda>j. case (cur j, d j) of (Some x, Some y) \<Rightarrow> x < y | _ \<Rightarrow> False) [0..<n]"

text \<open>\<^verbatim>\<open>any_pair(d @ cur)\<close>: do the two vectors share an index?\<close>

definition any_pair_dot :: "nat \<Rightarrow> vec \<Rightarrow> vec \<Rightarrow> bool" where
  "any_pair_dot n d cur \<longleftrightarrow> list_ex (\<lambda>j. d j \<noteq> None \<and> cur j \<noteq> None) [0..<n]"

text \<open>\<^verbatim>\<open>d *= iso_value\<close>, in the dtype of width \<open>b\<close>.\<close>

definition scale :: "nat \<Rightarrow> int \<Rightarrow> vec \<Rightarrow> vec" where
  "scale b w d j = map_option (\<lambda>x. wrap b (x * w)) (d j)"

section \<open>The Level-BFS engine\<close>

text \<open>Modelled from the spec: the Level-BFS engine (\<open>_bfs_level\<close>, \<open>_bfs_plain\<close> and
  \<open>_bfs_levels\<close> of the missing module \<open>_bfs\<close>). "Repeatedly multiply the current
  frontier by the adjacency matrix (or its transpose) under an existence-preserving
  semiring, mask out nodes already visited, stop when the frontier is empty or the depth
  bound is reached"; the result gives the "hop count from source to each reachable node",
  "unreachable nodes have no entry". The loop assigns level \<open>i\<close> in its \<open>i\<close>-th round
  and stops before a level beyond the depth bound. A frontier can be non-empty for at
  most \<open>n - 1\<close> rounds (each one visits a new node), so \<open>n - 1\<close> rounds are all that
  can happen.\<close>

definition bfs_frontier :: "nat \<Rightarrow> mat \<Rightarrow> (nat \<Rightarrow> bool) \<Rightarrow> vec \<Rightarrow> nat \<Rightarrow> bool" where
  "bfs_frontier n A q v j \<longleftrightarrow>
     j < n \<and> v j = None \<and> list_ex (\<lambda>i. q i \<and> A i j \<noteq> None) [0..<n]"

definition beyond_depth :: "int option \<Rightarrow> nat \<Rightarrow> bool" where
  "beyond_depth depth i = (case depth of None \<Rightarrow> False | Some c \<Rightarrow> c < int i)"

fun bfs_loop :: "nat \<Rightarrow> mat \<Rightarrow> int option \<Rightarrow> nat \<Rightarrow> nat \<Rightarrow> vec \<Rightarrow> (nat \<Rightarrow> bool) \<Rightarrow> vec" where
  "bfs_loop n A depth 0 i v q = v"
| "bfs_loop n A depth (Suc k) i v q =
     (if beyond_depth depth i then v
      else (let q' = bfs_frontier n A q v
            in if \<not> list_ex q' [0..<n] then v
               else bfs_loop n A depth k (Suc i) (\<lambda>j. if q' j then Some (int i) else v j) q'))"

definition bfs_level_on :: "nat \<Rightarrow> mat \<Rightarrow> nat \<Rightarrow> int option \<Rightarrow> vec" where
  "bfs_level_on n A source depth =
     bfs_loop n A depth (n - 1) 1 (\<lambda>j. if j = source then Some 0 else None)
       (\<lambda>j. j = source)"

definition bfs_level :: "graph \<Rightarrow> nat \<Rightarrow> int option \<Rightarrow> vec" where
  "bfs_level G source depth = bfs_level_on (nnodes G) (adj G) source depth"

text \<open>Modelled from the spec: the engine produces the levels "using a chosen numeric
  domain for the result"; \<open>_bfs_level(..., dtype=iso_value.dtype)\<close> asks for the dtype
  of the weights, so each level is stored in the width \<open>b\<close>.\<close>

definition bfs_level_dtype :: "nat \<Rightarrow> graph \<Rightarrow> nat \<Rightarrow> int option \<Rightarrow> vec" where
  "bfs_level_dtype b G source depth j = map_option (wrap b) (bfs_level G source depth j)"

definition bfs_plain :: "graph \<Rightarrow> nat \<Rightarrow> bool \<Rightarrow> vec" where
  "bfs_plain G source transposed =
     bfs_level_on (nnodes G) (if transposed then (\<lambda>i j. adj G j i) else adj G) source None"

section \<open>Reachability sets (dag.py)\<close>

text \<open>\<^verbatim>\<open>del rv[index]\<close> removes the entry at \<open>index\<close> (nothing happens when there is none).\<close>

definition vdel :: "vec \<Rightarrow> nat \<Rightarrow> vec" where
  "vdel v i = v(i := None)"

definition descendants :: "graph \<Rightarrow> nat \<Rightarrow> error + vec" where
  "descendants G source =
     (if \<not> source < nnodes G then Inl KeyError
      else Inr (vdel (bfs_plain G source False) source))"

definition ancestors :: "graph \<Rightarrow> nat \<Rightarrow> error + vec" where
  "ancestors G source =
     (if \<not> source < nnodes G then Inl KeyError
      else Inr (vdel (bfs_plain G source True) source))"

section \<open>Bellman-Ford relaxation (weighted.py)\<close>

subsection \<open>One round and the loop\<close>

text \<open>The body of the \<^verbatim>\<open>for _i in range(n - 1)\<close> loop up to the emptiness test: relax,
  prune by the cutoff, keep what is new or strictly better.\<close>

definition bf_round :: "nat \<Rightarrow> int option \<Rightarrow> nat \<Rightarrow> mat \<Rightarrow> vec \<Rightarrow> vec \<Rightarrow> vec" where
  "bf_round b cutoff n A d cur =
     (let cur1 = apply_cutoff cutoff (vxm_min_plus b n cur A)
      in keep_masked (improve_mask cur1 d) cur1)"

text \<open>The loop. The first component of the result says whether the loop left through
  \<^verbatim>\<open>break\<close> (so that the \<^verbatim>\<open>else\<close> branch of the \<^verbatim>\<open>for\<close> is skipped); the others are
  \<open>d\<close> and \<open>cur\<close> on exit.\<close>

fun bf_loop :: "nat \<Rightarrow> int option \<Rightarrow> nat \<Rightarrow> mat \<Rightarrow> nat \<Rightarrow> vec \<Rightarrow> vec \<Rightarrow> bool \<times> vec \<times> vec" where
  "bf_loop b cutoff n A 0 d cur = (False, d, cur)"
| "bf_loop b cutoff n A (Suc k) d cur =
     (let cur' = bf_round b cutoff n A d cur
      in if nvals n cur' = 0 then (True, d, cur')
         else bf_loop b cutoff n A k (assign_struct d cur') cur')"

text \<open>Lines 38 to 82: the general path of \<open>single_source_bellman_ford_path_length\<close>.\<close>

definition single_source_general :: "graph \<Rightarrow> nat \<Rightarrow> int option \<Rightarrow> error + vec" where
  "single_source_general G index cutoff =
     (let A = offdiag G; n = nnodes G; b = bits G;
          d0 = (\<lambda>j. if j = index then Some 0 else None);
          (broke, d, cur) = bf_loop b cutoff n A (n - 1) d0 d0
      in if \<not> broke \<and> any_lt n (apply_cutoff cutoff (vxm_min_plus b n cur A)) d
         then Inl Unbounded
         else if has_negative_diagonal G \<and> any_pair_dot n d (select_valuelt (diag G) 0)
         then Inl Unbounded
         else Inr d)"

text \<open>The whole function. \<^verbatim>\<open>int(cutoff // iso_value)\<close> is the floor division of the
  integers (\<open>div\<close>), for an iso value other than 0.\<close>

definition single_source_bellman_ford_path_length ::
    "graph \<Rightarrow> nat \<Rightarrow> int option \<Rightarrow> error + vec" where
  "single_source_bellman_ford_path_length G source cutoff =
     (if \<not> source < nnodes G then Inl KeyError
      else if is_iso G \<and> \<not> has_negative_edges_plus G then
        (case cutoff of
           None \<Rightarrow>
             (let d = bfs_level_dtype (bits G) G source None
              in Inr (if iso_value G \<noteq> 1 then scale (bits G) (iso_value G) d else d))
         | Some c \<Rightarrow>
             if iso_value G = 0 then Inl Undetermined
             else (let d = bfs_level_dtype (bits G) G source (Some (c div iso_value G))
                   in Inr (if iso_value G \<noteq> 1 then scale (bits G) (iso_value G) d else d)))
      else if is_iso G \<and> adj G source source \<noteq> None then Inl Unbounded
      else if is_iso G \<and> \<not> directed G \<and>
              list_ex (\<lambda>j. adj G source j \<noteq> None) [0..<nnodes G] then Inl Unbounded
      else single_source_general G source cutoff)"

subsection \<open>The global detector\<close>

fun nec_loop :: "nat \<Rightarrow> nat \<Rightarrow> mat \<Rightarrow> nat \<Rightarrow> vec \<Rightarrow> vec \<Rightarrow> bool" where
  "nec_loop b n A 0 d cur = any_lt n (vxm_min_plus b n cur A) d"
| "nec_loop b n A (Suc k) d cur =
     (let cur1 = vxm_min_plus b n cur A;
          cur' = keep_masked (improve_mask cur1 d) cur1
      in if nvals n cur' = 0 then False
         else nec_loop b n A k (assign_struct d cur') cur')"

definition negative_edge_cycle :: "graph \<Rightarrow> bool" where
  "negative_edge_cycle G =
     (if has_negative_diagonal G then True
      else if \<not> has_negative_edges_minus G then False
      else (let d0 = (\<lambda>j. if degrees G j \<noteq> None then Some 0 else None)
            in nec_loop (bits G) (nnodes G) (offdiag G) (nnodes G - 1) d0 d0))"

section \<open>Concrete graphs\<close>

text \<open>Scenario A: the directed triangle \<open>0\<rightarrow>1:1, 1\<rightarrow>2:1, 2\<rightarrow>0:1\<close>, stored as a general
  (not iso-flagged) matrix, and the same triangle with a self-loop at node 0 and the iso
  flag set.\<close>

definition triangle :: graph where
  "triangle = \<lparr>nnodes = 3, adj = from_coo [((0, 1), 1), ((1, 2), 1), ((2, 0), 1)],
     directed = True, is_iso = False, iso_value = 0, bits = 64\<rparr>"

definition loop_triangle :: graph where
  "loop_triangle = \<lparr>nnodes = 3,
     adj = from_coo [((0, 0), 1), ((0, 1), 1), ((1, 2), 1), ((2, 0), 1)],
     directed = True, is_iso = True, iso_value = 1, bits = 64\<rparr>"

section \<open>The same computation on the unbounded integers\<close>

text \<open>These definitions are not a model of the code: they are the relaxation with exact
  arithmetic (no wrap-around), the reference against which the code is measured. The code
  computes what they compute as long as no sum leaves the range of the dtype, which is
  proved below (\<open>single_source_exact_eq\<close>); where a sum does leave it, the two differ.\<close>

fun opt_plus_exact :: "int option \<Rightarrow> int option \<Rightarrow> int option" where
  "opt_plus_exact (Some x) (Some w) = Some (x + w)"
| "opt_plus_exact _ _ = None"

definition vxm_min_plus_exact :: "nat \<Rightarrow> vec \<Rightarrow> mat \<Rightarrow> vec" where
  "vxm_min_plus_exact n cur A j =
     (if j < n then foldr (\<lambda>i acc. opt_min (opt_plus_exact (cur i) (A i j)) acc) [0..<n] None
      else None)"

definition scale_exact :: "int \<Rightarrow> vec \<Rightarrow> vec" where
  "scale_exact w d j = map_option (\<lambda>x. x * w) (d j)"

definition bf_round_exact :: "int option \<Rightarrow> nat \<Rightarrow> mat \<Rightarrow> vec \<Rightarrow> vec \<Rightarrow> vec" where
  "bf_round_exact cutoff n A d cur =
     (let cur1 = apply_cutoff cutoff (vxm_min_plus_exact n cur A)
      in keep_masked (improve_mask cur1 d) cur1)"

fun bf_loop_exact :: "int option \<Rightarrow> nat \<Rightarrow> mat \<Rightarrow> nat \<Rightarrow> vec \<Rightarrow> vec \<Rightarrow> bool \<times> vec \<times> vec" where
  "bf_loop_exact cutoff n A 0 d cur = (False, d, cur)"
| "bf_loop_exact cutoff n A (Suc k) d cur =
     (let cur' = bf_round_exact cutoff n A d cur
      in if nvals n cur' = 0 then (True, d, cur')
         else bf_loop_exact cutoff n A k (assign_struct d cur') cur')"

text \<open>Lines 38 to 82: the general path of \<open>single_source_exact\<close>.\<close>

definition single_source_general_exact :: "graph \<Rightarrow> nat \<Rightarrow> int option \<Rightarrow> error + vec" where
  "single_source_general_exact G index cutoff =
     (let A = offdiag G; n = nnodes G;
          d0 = (\<lambda>j. if j = index then Some 0 else None);
          (broke, d, cur) = bf_loop_exact cutoff n A (n - 1) d0 d0
      in if \<not> broke \<and> any_lt n (apply_cutoff cutoff (vxm_min_plus_exact n cur A)) d
         then Inl Unbounded
         else if has_negative_diagonal G \<and> any_pair_dot n d (select_valuelt (diag G) 0)
         then Inl Unbounded
         else Inr d)"

definition single_source_exact ::
    "graph \<Rightarrow> nat \<Rightarrow> int option \<Rightarrow> error + vec" where
  "single_source_exact G source cutoff =
     (if \<not> source < nnodes G then Inl KeyError
      else if is_iso G \<and> \<not> has_negative_edges_plus G then
        (case cutoff of
           None \<Rightarrow>
             (let d = bfs_level G source None
              in Inr (if iso_value G \<noteq> 1 then scale_exact (iso_value G) d else d))
         | Some c \<Rightarrow>
             if iso_value G = 0 then Inl Undetermined
             else (let d = bfs_level G source (Some (c div iso_value G))
                   in Inr (if iso_value G \<noteq> 1 then scale_exact (iso_value G) d else d)))
      else if is_iso G \<and> adj G source source \<noteq> None then Inl Unbounded
      else if is_iso G \<and> \<not> directed G \<and>
              list_ex (\<lambda>j. adj G source j \<noteq> None) [0..<nnodes G] then Inl Unbounded
      else single_source_general_exact G source cutoff)"

section \<open>Walks, weights and cycles\<close>

text \<open>A walk is the list of the nodes it visits, in order; consecutive nodes are joined
  by an entry of the matrix. Its weight is the sum of these entries. A walk of one node
  has no edge and weight 0.\<close>

fun is_walk :: "mat \<Rightarrow> nat list \<Rightarrow> bool" where
  "is_walk A [] = False"
| "is_walk A [v] = True"
| "is_walk A (u # v # vs) = (A u v \<noteq> None \<and> is_walk A (v # vs))"

fun walk_weight :: "mat \<Rightarrow> nat list \<Rightarrow> int" where
  "walk_weight A (u # v # vs) = (case A u v of Some w \<Rightarrow> w | None \<Rightarrow> 0) + walk_weight A (v # vs)"
| "walk_weight A vs = 0"

text \<open>A walk respects a cutoff when each of its prefixes with at least one edge has a
  weight of at most the cutoff (no condition when there is no cutoff).\<close>

definition within :: "int option \<Rightarrow> int \<Rightarrow> bool" where
  "within cutoff x = (case cutoff of None \<Rightarrow> True | Some c \<Rightarrow> x \<le> c)"

definition cwalk :: "mat \<Rightarrow> int option \<Rightarrow> nat list \<Rightarrow> bool" where
  "cwalk A cutoff vs \<longleftrightarrow>
     is_walk A vs \<and>
     list_all (\<lambda>k. within cutoff (walk_weight A (take k vs))) [2..<Suc (length vs)]"

text \<open>\<open>reach S A co k v x\<close>: some cutoff-respecting walk with at most \<open>k\<close> edges
  leads from a seed node (one that satisfies \<open>S\<close>) to \<open>v\<close> and weighs \<open>x\<close>.\<close>

definition reach :: "(nat \<Rightarrow> bool) \<Rightarrow> mat \<Rightarrow> int option \<Rightarrow> nat \<Rightarrow> nat \<Rightarrow> int \<Rightarrow> bool" where
  "reach S A co k v x \<longleftrightarrow>
     (\<exists>vs. cwalk A co vs \<and> S (hd vs) \<and> last vs = v \<and> length vs \<le> Suc k \<and> walk_weight A vs = x)"

definition bounded_mat :: "nat \<Rightarrow> mat \<Rightarrow> bool" where
  "bounded_mat n A \<longleftrightarrow> (\<forall>i j. A i j \<noteq> None \<longrightarrow> i < n \<and> j < n)"

text \<open>The loop invariant after \<open>k\<close> rounds: every entry of \<open>d\<close> is the weight of a
  walk of at most \<open>k\<close> edges; no such walk is lighter than the entry of its end node;
  the frontier is part of \<open>d\<close>; and the edges that leave a node outside the frontier
  are already relaxed.\<close>

definition bf_inv :: "(nat \<Rightarrow> bool) \<Rightarrow> mat \<Rightarrow> int option \<Rightarrow> nat \<Rightarrow> nat \<Rightarrow> vec \<Rightarrow> vec \<Rightarrow> bool" where
  "bf_inv S A co n k d cur \<longleftrightarrow>
     (\<forall>v x. d v = Some x \<longrightarrow> v < n \<and> reach S A co k v x) \<and>
     (\<forall>v x. reach S A co k v x \<longrightarrow> (\<exists>y. d v = Some y \<and> y \<le> x)) \<and>
     (\<forall>v x. cur v = Some x \<longrightarrow> d v = Some x) \<and>
     (\<forall>u v x w. d u = Some x \<and> cur u = None \<and> A u v = Some w \<and> within co (x + w) \<longrightarrow>
        (\<exists>y. d v = Some y \<and> y \<le> x + w))"

text \<open>\<open>d\<close> is closed under relaxation: no edge within the cutoff improves it.\<close>

definition bf_closed :: "mat \<Rightarrow> int option \<Rightarrow> vec \<Rightarrow> bool" where
  "bf_closed A co d \<longleftrightarrow>
     (\<forall>u v x w. d u = Some x \<and> A u v = Some w \<and> within co (x + w) \<longrightarrow>
        (\<exists>y. d v = Some y \<and> y \<le> x + w))"

text \<open>A negative cycle is reachable from a seed node: some walk leads from a seed to a
  node that lies on a closed walk of negative weight.\<close>

definition neg_cycle_from :: "mat \<Rightarrow> (nat \<Rightarrow> bool) \<Rightarrow> bool" where
  "neg_cycle_from A S \<longleftrightarrow>
     (\<exists>ps cs. is_walk A ps \<and> S (hd ps) \<and> is_walk A cs \<and> hd cs = last ps \<and>
        last cs = hd cs \<and> walk_weight A cs < 0)"

text \<open>\<open>walk_to A co s v vs\<close>: \<open>vs\<close> is a cutoff-respecting walk from \<open>s\<close> to \<open>v\<close>.
  \<open>is_dist A co s v x\<close>: \<open>x\<close> is the least weight of such a walk, the shortest-path
  length from \<open>s\<close> to \<open>v\<close> (among all walks when there is no cutoff).\<close>

definition walk_to :: "mat \<Rightarrow> int option \<Rightarrow> nat \<Rightarrow> nat \<Rightarrow> nat list \<Rightarrow> bool" where
  "walk_to A co s v vs \<longleftrightarrow> cwalk A co vs \<and> hd vs = s \<and> last vs = v"

definition is_dist :: "mat \<Rightarrow> int option \<Rightarrow> nat \<Rightarrow> nat \<Rightarrow> int \<Rightarrow> bool" where
  "is_dist A co s v x \<longleftrightarrow>
     (\<exists>vs. walk_to A co s v vs \<and> walk_weight A vs = x) \<and>
     (\<forall>vs. walk_to A co s v vs \<longrightarrow> x \<le> walk_weight A vs)"

text \<open>The matrix with every weight replaced by 0: its walks are the walks of \<open>A\<close>.\<close>

definition unweighted :: "mat \<Rightarrow> mat" where
  "unweighted A i j = map_option (\<lambda>w. 0) (A i j)"

text \<open>A negative cycle of the graph is reachable from the node \<open>s\<close>.\<close>

definition neg_cycle_reachable :: "graph \<Rightarrow> nat \<Rightarrow> bool" where
  "neg_cycle_reachable G s = neg_cycle_from (adj G) (\<lambda>j. j = s)"

text \<open>The outcome of a call as a list: the first \<open>n\<close> entries of the returned vector.\<close>

definition entries :: "nat \<Rightarrow> error + vec \<Rightarrow> error + int option list" where
  "entries n r = (case r of Inl e \<Rightarrow> Inl e | Inr d \<Rightarrow> Inr (map d [0..<n]))"

definition two_cycle :: graph where
  "two_cycle = \<lparr>nnodes = 2, adj = from_coo [((0, 1), 1), ((1, 0), - 3)],
     directed = True, is_iso = False, iso_value = 0, bits = 64\<rparr>"

definition neg_prune :: graph where
  "neg_prune = \<lparr>nnodes = 3, adj = from_coo [((0, 1), 5), ((1, 2), - 4)],
     directed = True, is_iso = False, iso_value = 0, bits = 64\<rparr>"

definition isolated_loop :: graph where
  "isolated_loop = \<lparr>nnodes = 3, adj = from_coo [((0, 1), 1), ((2, 2), - 1)],
     directed = True, is_iso = False, iso_value = 0, bits = 64\<rparr>"

definition undirected_neg :: graph where
  "undirected_neg = \<lparr>nnodes = 2, adj = from_coo [((0, 1), - 1), ((1, 0), - 1)],
     directed = False, is_iso = True, iso_value = - 1, bits = 64\<rparr>"

text \<open>The distance container of the single-source loop once \<open>r\<close> rounds are over (or
  at the \<^verbatim>\<open>break\<close>, when the frontier became empty earlier); and the same for the
  computation on the unbounded integers.\<close>

definition dist_after :: "graph \<Rightarrow> nat \<Rightarrow> int option \<Rightarrow> nat \<Rightarrow> vec" where
  "dist_after G s co r =
     fst (snd (bf_loop (bits G) co (nnodes G) (offdiag G) r
       (\<lambda>j. if j = s then Some 0 else None) (\<lambda>j. if j = s then Some 0 else None)))"

definition dist_after_exact :: "graph \<Rightarrow> nat \<Rightarrow> int option \<Rightarrow> nat \<Rightarrow> vec" where
  "dist_after_exact G s co r =
     fst (snd (bf_loop_exact co (nnodes G) (offdiag G) r
       (\<lambda>j. if j = s then Some 0 else None) (\<lambda>j. if j = s then Some 0 else None)))"

text \<open>The matrix with every weight replaced by 1: the weight of a walk is then its
  number of edges.\<close>

definition unit_weights :: "mat \<Rightarrow> mat" where
  "unit_weights A i j = map_option (\<lambda>w. 1) (A i j)"

text \<open>\<open>hops A s v h\<close>: \<open>h\<close> is the least number of edges of a walk from \<open>s\<close> to \<open>v\<close>.\<close>

definition hops :: "mat \<Rightarrow> nat \<Rightarrow> nat \<Rightarrow> int \<Rightarrow> bool" where
  "hops A s v h \<longleftrightarrow>
     (\<exists>vs. is_walk A vs \<and> hd vs = s \<and> last vs = v \<and> int (length vs) - 1 = h) \<and>
     (\<forall>vs. is_walk A vs \<and> hd vs = s \<and> last vs = v \<longrightarrow> h \<le> int (length vs) - 1)"

text \<open>The chain \<open>0\<rightarrow>1\<rightarrow>2\<rightarrow>3\<close> with every weight 2 (scenario D), iso-flagged.\<close>

definition chain4 :: graph where
  "chain4 = \<lparr>nnodes = 4, adj = from_coo [((0, 1), 2), ((1, 2), 2), ((2, 3), 2)],
     directed = True, is_iso = True, iso_value = 2, bits = 64\<rparr>"

text \<open>The graph \<open>0\<rightarrow>2:2, 0\<rightarrow>1:5, 1\<rightarrow>2:-4\<close>: the direct edge to node 2 is heavier than
  the detour through node 1.\<close>

definition detour :: graph where
  "detour = \<lparr>nnodes = 3, adj = from_coo [((0, 2), 2), ((0, 1), 5), ((1, 2), - 4)],
     directed = True, is_iso = False, iso_value = 0, bits = 64\<rparr>"

text \<open>Every edge of the graph carries the weight \<open>w\<close>; no edge weight is negative.\<close>

definition uniform_weights :: "graph \<Rightarrow> int \<Rightarrow> bool" where
  "uniform_weights G w \<longleftrightarrow> (\<forall>i j x. adj G i j = Some x \<longrightarrow> x = w)"

definition nonneg_weights :: "graph \<Rightarrow> bool" where
  "nonneg_weights G \<longleftrightarrow> (\<forall>i j x. adj G i j = Some x \<longrightarrow> 0 \<le> x)"

section \<open>The multi-source form (weighted.py, bellman_ford_path_lengths)\<close>

text \<open>A Matrix result: its shape and its rows (row \<open>r\<close> as a sparse vector).\<close>

record matrix =
  mrows :: nat
  mcols :: nat
  mrow :: "nat \<Rightarrow> vec"

text \<open>Modelled from the spec: the multi-source Level-BFS (\<open>_bfs_levels\<close> of the missing
  module \<open>_bfs\<close>), "a matrix, one row per source" of hop counts.\<close>

definition bfs_levels :: "graph \<Rightarrow> nat list \<Rightarrow> nat \<Rightarrow> vec" where
  "bfs_levels G ids r =
     (if r < length ids then bfs_level_dtype (bits G) G (ids ! r) None else (\<lambda>j. None))"

text \<open>\<^verbatim>\<open>rv[ids, :] = D\<close>: row \<open>ids[r]\<close> of the new matrix is row \<open>r\<close> of \<open>D\<close>, the other
  rows stay empty. (Where \<open>ids\<close> repeats an index the later row is taken.)\<close>

definition expand_rows :: "nat list \<Rightarrow> (nat \<Rightarrow> vec) \<Rightarrow> nat \<Rightarrow> vec" where
  "expand_rows ids D =
     foldl (\<lambda>rv r. rv(ids ! r := D r)) (\<lambda>i j. None) [0..<length ids]"

text \<open>The loop on matrices: every operation of the single-source loop, applied to all
  rows at once; the loop stops early only when no row has a frontier left.\<close>

definition mnvals :: "nat \<Rightarrow> nat \<Rightarrow> (nat \<Rightarrow> vec) \<Rightarrow> nat" where
  "mnvals m n C = sum_list (map (\<lambda>r. nvals n (C r)) [0..<m])"

fun mbf_loop :: "nat \<Rightarrow> nat \<Rightarrow> nat \<Rightarrow> mat \<Rightarrow> nat \<Rightarrow> (nat \<Rightarrow> vec) \<Rightarrow> (nat \<Rightarrow> vec) \<Rightarrow>
    bool \<times> (nat \<Rightarrow> vec) \<times> (nat \<Rightarrow> vec)" where
  "mbf_loop b m n A 0 D Cur = (False, D, Cur)"
| "mbf_loop b m n A (Suc k) D Cur =
     (let Cur' = (\<lambda>r. bf_round b None n A (D r) (Cur r))
      in if mnvals m n Cur' = 0 then (True, D, Cur')
         else mbf_loop b m n A k (\<lambda>r. assign_struct (D r) (Cur' r)) Cur')"

text \<open>Lines 117 to 164: the general path.\<close>

definition path_lengths_general :: "graph \<Rightarrow> nat list \<Rightarrow> bool \<Rightarrow> error + matrix" where
  "path_lengths_general G ids expand =
     (let A = offdiag G; n = nnodes G; m = length ids; b = bits G;
          D0 = (\<lambda>r. if r < m then (\<lambda>j. if j = ids ! r then Some 0 else None)
                     else (\<lambda>j. None));
          (broke, D, Cur) = mbf_loop b m n A (n - 1) D0 D0
      in if \<not> broke \<and> list_ex (\<lambda>r. any_lt n (vxm_min_plus b n (Cur r) A) (D r)) [0..<m]
         then Inl Unbounded
         else if has_negative_diagonal G \<and>
                 list_ex (\<lambda>r. any_pair_dot n (D r) (select_valuelt (diag G) 0)) [0..<m]
         then Inl Unbounded
         else if expand \<and> n \<noteq> m
         then Inr \<lparr>mrows = n, mcols = n, mrow = expand_rows ids D\<rparr>
         else Inr \<lparr>mrows = m, mcols = n, mrow = D\<rparr>)"

definition bellman_ford_path_lengths ::
    "graph \<Rightarrow> nat list option \<Rightarrow> bool \<Rightarrow> error + matrix" where
  "bellman_ford_path_lengths G nodes expand_output =
     (let n = nnodes G;
          ids = (case nodes of None \<Rightarrow> [0..<n] | Some ns \<Rightarrow> ns)
      in if \<not> list_all (\<lambda>i. i < n) ids then Inl KeyError
         else if is_iso G \<and> \<not> has_negative_edges_plus G then
           (let D0 = bfs_levels G ids;
                D = (if iso_value G \<noteq> 1 then (\<lambda>r. scale (bits G) (iso_value G) (D0 r))
                     else D0)
            in if nodes \<noteq> None \<and> expand_output \<and> n \<noteq> length ids
               then Inr \<lparr>mrows = n, mcols = n, mrow = expand_rows ids D\<rparr>
               else Inr \<lparr>mrows = length ids, mcols = n, mrow = D\<rparr>)
         else if is_iso G \<and> \<not> directed G \<and>
                 list_ex (\<lambda>i. list_ex (\<lambda>j. adj G i j \<noteq> None) [0..<n]) ids
         then Inl Unbounded
         else path_lengths_general G ids (nodes \<noteq> None \<and> expand_output))"

definition edge01 :: graph where
  "edge01 = \<lparr>nnodes = 2, adj = from_coo [((0, 1), 1)],
     directed = True, is_iso = False, iso_value = 0, bits = 64\<rparr>"

text \<open>The outcome of a multi-source call as data: the shape and the rows as lists.\<close>

definition mentries :: "error + matrix \<Rightarrow> error + (nat \<times> nat \<times> int option list list)" where
  "mentries r = (case r of Inl e \<Rightarrow> Inl e
     | Inr M \<Rightarrow> Inr (mrows M, mcols M, map (\<lambda>i. map (mrow M i) [0..<mcols M]) [0..<mrows M]))"

text \<open>\<open>fits G W\<close>: the weights (and the iso value) are at most \<open>W\<close> in absolute value and
  \<open>n\<close> times \<open>W\<close> is inside the range of the dtype, so that no sum of at most \<open>n\<close>
  weights overflows.\<close>

definition fits :: "graph \<Rightarrow> int \<Rightarrow> bool" where
  "fits G W \<longleftrightarrow>
     0 < bits G \<and> 1 \<le> W \<and>
     (\<forall>i j x. adj G i j = Some x \<longrightarrow> \<bar>x\<bar> \<le> W) \<and>
     (is_iso G \<longrightarrow> \<bar>iso_value G\<bar> \<le> W) \<and>
     int (nnodes G) * W < 2 ^ (bits G - 1)"

text \<open>The cutoff, when there is one, is a value of the dtype.\<close>

definition cutoff_in_range :: "graph \<Rightarrow> int option \<Rightarrow> bool" where
  "cutoff_in_range G cutoff = (case cutoff of None \<Rightarrow> True | Some c \<Rightarrow> in_range (bits G) c)"

definition bounded_vec :: "int \<Rightarrow> vec \<Rightarrow> bool" where
  "bounded_vec K v \<longleftrightarrow> (\<forall>j x. v j = Some x \<longrightarrow> \<bar>x\<bar> \<le> K)"

definition bounded_weights :: "int \<Rightarrow> mat \<Rightarrow> bool" where
  "bounded_weights W A \<longleftrightarrow> (\<forall>i j x. A i j = Some x \<longrightarrow> \<bar>x\<bar> \<le> W)"

text \<open>On the fast path a cutoff is divided by the iso value; the division is defined
  when that value is positive.\<close>

definition fast_path_defined :: "graph \<Rightarrow> int option \<Rightarrow> bool" where
  "fast_path_defined G cutoff \<longleftrightarrow>
     (cutoff \<noteq> None \<and> is_iso G \<and> \<not> has_negative_edges_plus G \<longrightarrow> 0 < iso_value G)"

text \<open>Two graphs with an 8-bit dtype (INT8, values from -128 to 127): the chain
  \<open>0\<rightarrow>1:100, 1\<rightarrow>2:101\<close>, and the chain \<open>0\<rightarrow>1:100, 1\<rightarrow>2:100\<close> with the iso flag set.\<close>

definition int8_chain :: graph where
  "int8_chain = \<lparr>nnodes = 3, adj = from_coo [((0, 1), 100), ((1, 2), 101)],
     directed = True, is_iso = False, iso_value = 0, bits = 8\<rparr>"

definition int8_iso :: graph where
  "int8_iso = \<lparr>nnodes = 3, adj = from_coo [((0, 1), 100), ((1, 2), 100)],
     directed = True, is_iso = True, iso_value = 100, bits = 8\<rparr>"

text \<open>Some closed walk of the graph has negative weight.\<close>

definition neg_cycle :: "graph \<Rightarrow> bool" where
  "neg_cycle G \<longleftrightarrow>
     (\<exists>cs. is_walk (adj G) cs \<and> last cs = hd cs \<and> walk_weight (adj G) cs < 0)"

text \<open>The seeds of the global detector: the nodes with an entry in the degree vector.\<close>

definition seed :: "graph \<Rightarrow> nat \<Rightarrow> bool" where
  "seed G j \<longleftrightarrow> degrees G j \<noteq> None"

text \<open>The 2-cycle \<open>0\<rightarrow>1:-100, 1\<rightarrow>0:-100\<close> with an 8-bit dtype.\<close>

definition int8_two_cycle :: graph where
  "int8_two_cycle = \<lparr>nnodes = 2, adj = from_coo [((0, 1), - 100), ((1, 0), - 100)],
     directed = True, is_iso = True, iso_value = - 100, bits = 8\<rparr>"

text \<open>The graph \<open>0\<rightarrow>1:1, 1\<rightarrow>2:1, 2\<rightarrow>1:-3\<close>: the negative cycle through nodes 1 and 2
  is one edge away from node 0.\<close>

definition late_cycle :: graph where
  "late_cycle = \<lparr>nnodes = 3, adj = from_coo [((0, 1), 1), ((1, 2), 1), ((2, 1), - 3)],
     directed = True, is_iso = False, iso_value = 0, bits = 64\<rparr>"

section \<open>Properties of the reachability sets\<close>

lemma bfs_loop_keeps: "v j = Some x \<Longrightarrow> bfs_loop n A depth k i v q j = Some x"
proof (induction k arbitrary: i v q)
  case 0
  then show ?case by simp
next
  case (Suc k)
  have "\<not> bfs_frontier n A q v j"
    using Suc.prems by (simp add: bfs_frontier_def)
  then show ?case
    using Suc by (simp add: Let_def)
qed

lemma bfs_plain_source: "bfs_plain G source t source = Some 0"
  unfolding bfs_plain_def bfs_level_on_def by (rule bfs_loop_keeps) simp

text \<open>C10: for a node of the graph, \<open>descendants\<close> and \<open>ancestors\<close> return a vector
  with no entry at the source itself, whatever the breadth-first search found (the source
  is always in the search result, at level 0, and \<^verbatim>\<open>del rv[index]\<close> removes it).\<close>

theorem reachability_excludes_source:
  "source < nnodes G \<Longrightarrow>
     (\<exists>d. descendants G source = Inr d \<and> d source = None) \<and>
     (\<exists>d. ancestors G source = Inr d \<and> d source = None)"
  by (simp add: descendants_def ancestors_def vdel_def)

theorem reachability_excludes_source_witness:
  "(0::nat) < nnodes loop_triangle \<and>
   bfs_plain loop_triangle 0 False 0 = Some 0 \<and>
   (\<exists>d. descendants loop_triangle 0 = Inr d \<and> d 0 = None) \<and>
   (\<exists>d. ancestors loop_triangle 0 = Inr d \<and> d 0 = None)"
proof -
  have h: "(0::nat) < nnodes loop_triangle"
    by (simp add: loop_triangle_def)
  show ?thesis
    using h reachability_excludes_source [OF h] bfs_plain_source [of loop_triangle 0 False]
    by simp
qed

section \<open>The relaxation loop computes least walk weights\<close>

lemma fold_min_None:
  "foldr (\<lambda>i acc. opt_min (f i) acc) xs None = None \<longleftrightarrow> (\<forall>i\<in>set xs. f i = None)"
proof (induction xs)
  case Nil
  then show ?case by simp
next
  case (Cons a xs)
  then show ?case
    by (cases "f a"; cases "foldr (\<lambda>i acc. opt_min (f i) acc) xs None") auto
qed

lemma fold_min_Some:
  "foldr (\<lambda>i acc. opt_min (f i) acc) xs None = Some m \<Longrightarrow>
     (\<exists>i\<in>set xs. f i = Some m) \<and> (\<forall>i\<in>set xs. \<forall>x. f i = Some x \<longrightarrow> m \<le> x)"
proof (induction xs arbitrary: m)
  case Nil
  then show ?case by simp
next
  case (Cons a xs)
  show ?case
  proof (cases "foldr (\<lambda>i acc. opt_min (f i) acc) xs None")
    case None
    then have "\<forall>i\<in>set xs. f i = None" by (simp add: fold_min_None)
    with Cons.prems None show ?thesis by (cases "f a") auto
  next
    case (Some r)
    note IH = Cons.IH [OF Some]
    show ?thesis
    proof (cases "f a")
      case None
      with Cons.prems Some IH show ?thesis by auto
    next
      case (Some y)
      with Cons.prems \<open>foldr _ xs None = Some r\<close> have m: "m = min y r" by simp
      show ?thesis
        using IH Some m by (auto simp: min_def)
    qed
  qed
qed

lemma vxm_None:
  "vxm_min_plus_exact n cur A j = None \<longleftrightarrow>
     (j < n \<longrightarrow> (\<forall>i<n. cur i = None \<or> A i j = None))"
proof -
  have "opt_plus_exact a b = None \<longleftrightarrow> a = None \<or> b = None" for a b
    by (cases a; cases b) auto
  then show ?thesis
    by (auto simp: vxm_min_plus_exact_def fold_min_None)
qed

lemma vxm_Some:
  assumes "vxm_min_plus_exact n cur A j = Some m"
  shows "j < n"
    and "\<exists>i<n. \<exists>x w. cur i = Some x \<and> A i j = Some w \<and> m = x + w"
    and "\<And>i x w. i < n \<Longrightarrow> cur i = Some x \<Longrightarrow> A i j = Some w \<Longrightarrow> m \<le> x + w"
proof -
  show j: "j < n" using assms by (auto simp: vxm_min_plus_exact_def split: if_splits)
  from assms j have f: "foldr (\<lambda>i acc. opt_min (opt_plus_exact (cur i) (A i j)) acc) [0..<n] None = Some m"
    by (simp add: vxm_min_plus_exact_def)
  note F = fold_min_Some [OF f]
  from F obtain i where i: "i < n" "opt_plus_exact (cur i) (A i j) = Some m" by auto
  then show "\<exists>i<n. \<exists>x w. cur i = Some x \<and> A i j = Some w \<and> m = x + w"
    by (cases "cur i"; cases "A i j") auto
  fix i x w assume "i < n" "cur i = Some x" "A i j = Some w"
  then show "m \<le> x + w" using F by auto
qed

lemma vxm_le:
  assumes "j < n" "i < n" "cur i = Some x" "A i j = Some w"
  shows "\<exists>m. vxm_min_plus_exact n cur A j = Some m \<and> m \<le> x + w"
proof (cases "vxm_min_plus_exact n cur A j")
  case None
  then show ?thesis using assms by (auto simp: vxm_None)
next
  case (Some m)
  then show ?thesis using vxm_Some(3) [OF Some] assms by auto
qed

lemma bf_round_Some:
  "bf_round_exact co n A d cur j = Some m \<longleftrightarrow>
     vxm_min_plus_exact n cur A j = Some m \<and> within co m \<and> (\<forall>y. d j = Some y \<longrightarrow> m < y)"
  by (cases co; cases "vxm_min_plus_exact n cur A j"; cases "d j")
     (auto simp: bf_round_exact_def Let_def keep_masked_def improve_mask_def apply_cutoff_def
        select_valuele_def within_def)

lemma nvals_0: "nvals n v = 0 \<longleftrightarrow> (\<forall>i<n. v i = None)"
  by (auto simp: nvals_def filter_empty_conv)

lemma is_walk_snoc: "is_walk A (vs @ [v]) \<longleftrightarrow> vs = [] \<or> (is_walk A vs \<and> A (last vs) v \<noteq> None)"
  by (induction A vs rule: is_walk.induct) auto

lemma walk_weight_snoc:
  "vs \<noteq> [] \<Longrightarrow> walk_weight A (vs @ [v]) =
     walk_weight A vs + (case A (last vs) v of Some w \<Rightarrow> w | None \<Rightarrow> 0)"
  by (induction A vs rule: walk_weight.induct) auto

lemma is_walk_append:
  "is_walk A (xs @ y # ys) \<longleftrightarrow> is_walk A (xs @ [y]) \<and> is_walk A (y # ys)"
  by (induction A xs rule: is_walk.induct) auto

lemma walk_weight_append:
  "walk_weight A (xs @ y # ys) = walk_weight A (xs @ [y]) + walk_weight A (y # ys)"
  by (induction A xs rule: walk_weight.induct) auto

lemma cwalk_iff:
  "cwalk A co vs \<longleftrightarrow>
     is_walk A vs \<and> (\<forall>k. 2 \<le> k \<and> k \<le> length vs \<longrightarrow> within co (walk_weight A (take k vs)))"
  by (auto simp: cwalk_def list_all_iff)

lemma cwalk_single: "cwalk A co [v]"
  by (simp add: cwalk_def)

lemma cwalk_snoc:
  assumes "vs \<noteq> []"
  shows "cwalk A co (vs @ [v]) \<longleftrightarrow>
     cwalk A co vs \<and> A (last vs) v \<noteq> None \<and> within co (walk_weight A (vs @ [v]))"
proof -
  have len: "1 \<le> length vs" using assms by (cases vs) auto
  have "(\<forall>k. 2 \<le> k \<and> k \<le> length (vs @ [v]) \<longrightarrow> within co (walk_weight A (take k (vs @ [v]))))
     \<longleftrightarrow> (\<forall>k. 2 \<le> k \<and> k \<le> length vs \<longrightarrow> within co (walk_weight A (take k vs)))
          \<and> within co (walk_weight A (vs @ [v]))" (is "?L \<longleftrightarrow> ?R1 \<and> ?R2")
  proof
    assume L: ?L
    have ?R2 using L [rule_format, of "Suc (length vs)"] len by simp
    moreover have ?R1
    proof (intro allI impI)
      fix k assume "2 \<le> k \<and> k \<le> length vs"
      then show "within co (walk_weight A (take k vs))"
        using L [rule_format, of k] by simp
    qed
    ultimately show "?R1 \<and> ?R2" by blast
  next
    assume R: "?R1 \<and> ?R2"
    show ?L
    proof (intro allI impI)
      fix k assume k: "2 \<le> k \<and> k \<le> length (vs @ [v])"
      show "within co (walk_weight A (take k (vs @ [v])))"
      proof (cases "k \<le> length vs")
        case True
        then show ?thesis using R k by simp
      next
        case False
        then have "k = Suc (length vs)" using k by simp
        then show ?thesis using R by simp
      qed
    qed
  qed
  then show ?thesis
    using assms by (auto simp: cwalk_iff is_walk_snoc)
qed

lemma reach_mono: "reach S A co k v x \<Longrightarrow> k \<le> k' \<Longrightarrow> reach S A co k' v x"
  unfolding reach_def by fastforce

lemma within_mono: "within co x \<Longrightarrow> y \<le> x \<Longrightarrow> within co y"
  by (cases co) (auto simp: within_def)

lemma bf_inv_init:
  assumes "\<And>u. S u \<Longrightarrow> u < n"
  shows "bf_inv S A co n 0 (\<lambda>j. if S j then Some 0 else None) (\<lambda>j. if S j then Some 0 else None)"
proof -
  have a: "reach S A co 0 v 0" if "S v" for v
    unfolding reach_def using that by (intro exI [of _ "[v]"]) (simp add: cwalk_single)
  have b: "S v \<and> x = 0" if "reach S A co 0 v x" for v x
  proof -
    from that obtain vs where vs: "cwalk A co vs" "S (hd vs)" "last vs = v" "length vs \<le> 1"
      "walk_weight A vs = x" by (auto simp: reach_def)
    then have "is_walk A vs" by (simp add: cwalk_iff)
    with vs(4) obtain u where "vs = [u]" by (cases vs) auto
    with vs show ?thesis by simp
  qed
  show ?thesis
    unfolding bf_inv_def using a b assms by (auto split: if_splits)
qed

lemma assign_struct_le:
  "d v = Some y \<Longrightarrow> bf_round_exact co n A d cur v = None \<or> (\<exists>m. bf_round_exact co n A d cur v = Some m \<and> m < y)"
  by (cases "bf_round_exact co n A d cur v") (auto simp: bf_round_Some)

lemma bf_step_le:
  assumes "d v = Some y"
  shows "\<exists>y'. assign_struct d (bf_round_exact co n A d cur) v = Some y' \<and> y' \<le> y"
  using assign_struct_le [of d v y co n A cur] assms
  by (auto simp: assign_struct_def)

lemma bf_full_relax:
  assumes inv3: "\<forall>v x. cur v = Some x \<longrightarrow> d v = Some x"
    and inv4: "\<forall>u v x w. d u = Some x \<and> cur u = None \<and> A u v = Some w \<and> within co (x + w) \<longrightarrow>
        (\<exists>y. d v = Some y \<and> y \<le> x + w)"
    and bnd: "bounded_mat n A"
    and du: "d u = Some x" and e: "A u v = Some w" and wi: "within co (x + w)"
  shows "\<exists>y. assign_struct d (bf_round_exact co n A d cur) v = Some y \<and> y \<le> x + w"
proof (cases "cur u")
  case None
  with inv4 du e wi obtain y where y: "d v = Some y" "y \<le> x + w" by blast
  from bf_step_le [of d v y co n A cur] y show ?thesis by force
next
  case (Some x')
  with inv3 du have cu: "cur u = Some x" by auto
  from bnd e have "u < n" "v < n" by (auto simp: bounded_mat_def)
  from vxm_le [of v n u cur x A w] \<open>v < n\<close> \<open>u < n\<close> cu e obtain m
    where m: "vxm_min_plus_exact n cur A v = Some m" "m \<le> x + w" by blast
  have wm: "within co m" using within_mono [OF wi m(2)] .
  show ?thesis
  proof (cases "\<forall>y. d v = Some y \<longrightarrow> m < y")
    case True
    with m wm have "bf_round_exact co n A d cur v = Some m" by (simp add: bf_round_Some)
    then show ?thesis using m(2) by (simp add: assign_struct_def)
  next
    case False
    then obtain y where y: "d v = Some y" "y \<le> m" by force
    from bf_step_le [of d v y co n A cur] y m(2) show ?thesis by force
  qed
qed

lemma bf_inv_step:
  assumes inv: "bf_inv S A co n k d cur" and bnd: "bounded_mat n A"
  shows "bf_inv S A co n (Suc k) (assign_struct d (bf_round_exact co n A d cur)) (bf_round_exact co n A d cur)"
proof -
  let ?cur' = "bf_round_exact co n A d cur"
  let ?d' = "assign_struct d ?cur'"
  from inv have inv1: "\<And>v x. d v = Some x \<Longrightarrow> v < n \<and> reach S A co k v x"
    and inv2: "\<And>v x. reach S A co k v x \<Longrightarrow> \<exists>y. d v = Some y \<and> y \<le> x"
    and inv3: "\<forall>v x. cur v = Some x \<longrightarrow> d v = Some x"
    and inv4: "\<forall>u v x w. d u = Some x \<and> cur u = None \<and> A u v = Some w \<and> within co (x + w) \<longrightarrow>
        (\<exists>y. d v = Some y \<and> y \<le> x + w)"
    unfolding bf_inv_def by blast+
  have c1: "v < n \<and> reach S A co (Suc k) v x" if "?d' v = Some x" for v x
  proof (cases "?cur' v")
    case None
    with that have "d v = Some x" by (simp add: assign_struct_def)
    from inv1 [OF this] show ?thesis by (auto intro: reach_mono)
  next
    case (Some m)
    with that have mx: "m = x" by (simp add: assign_struct_def)
    from Some have vm: "vxm_min_plus_exact n cur A v = Some x" and wx: "within co x"
      by (auto simp: bf_round_Some mx)
    from vxm_Some(1,2) [OF vm] obtain u xu w where
      u: "v < n" "cur u = Some xu" "A u v = Some w" "x = xu + w" by blast
    from inv3 u(2) have "d u = Some xu" by blast
    from inv1 [OF this] obtain vs where vs: "cwalk A co vs" "S (hd vs)" "last vs = u"
      "length vs \<le> Suc k" "walk_weight A vs = xu" by (auto simp: reach_def)
    have ne: "vs \<noteq> []" using vs(1) by (auto simp: cwalk_iff)
    have ww: "walk_weight A (vs @ [v]) = x"
      using walk_weight_snoc [OF ne, of A v] vs u by simp
    have "cwalk A co (vs @ [v])"
      using cwalk_snoc [OF ne, of A co v] vs u ww wx by simp
    moreover have "hd (vs @ [v]) = hd vs" using ne by simp
    ultimately have "reach S A co (Suc k) v x"
      unfolding reach_def using vs ww by (intro exI [of _ "vs @ [v]"]) simp
    with u(1) show ?thesis by simp
  qed
  have c2: "\<exists>y. ?d' v = Some y \<and> y \<le> x" if "reach S A co (Suc k) v x" for v x
  proof -
    from that obtain vs where vs: "cwalk A co vs" "S (hd vs)" "last vs = v"
      "length vs \<le> Suc (Suc k)" "walk_weight A vs = x" by (auto simp: reach_def)
    show ?thesis
    proof (cases "length vs \<le> Suc k")
      case True
      with vs have "reach S A co k v x" by (auto simp: reach_def)
      from inv2 [OF this] obtain y where y: "d v = Some y" "y \<le> x" by blast
      from bf_step_le [of d v y co n A cur] y show ?thesis by force
    next
      case False
      with vs(4) have len: "length vs = Suc (Suc k)" by simp
      then have "vs = butlast vs @ [last vs]" "butlast vs \<noteq> []"
        by (auto simp: length_0_conv [symmetric] simp del: length_0_conv)
      then obtain us z where us: "vs = us @ [z]" "us \<noteq> []"
        by blast
      with vs(3) have z: "z = v" by simp
      from vs(1) us z have cu: "cwalk A co us" and e: "A (last us) v \<noteq> None"
        and wi: "within co (walk_weight A (us @ [v]))"
        using cwalk_snoc [OF us(2), of A co v] by auto
      from e obtain w where w: "A (last us) v = Some w" by auto
      have wx: "x = walk_weight A us + w"
        using walk_weight_snoc [OF us(2), of A v] vs(5) us(1) z w by simp
      have "reach S A co k (last us) (walk_weight A us)"
        unfolding reach_def using cu vs(2) us len by (intro exI [of _ us]) simp
      from inv2 [OF this] obtain xu where xu: "d (last us) = Some xu" "xu \<le> walk_weight A us"
        by blast
      have "within co (xu + w)"
        using within_mono [OF wi, of "xu + w"] walk_weight_snoc [OF us(2), of A v] w xu(2) by simp
      from bf_full_relax [OF inv3 inv4 bnd xu(1) w this] xu(2) wx show ?thesis by force
    qed
  qed
  have c3: "?d' v = Some x" if "?cur' v = Some x" for v x
    using that by (simp add: assign_struct_def)
  have c4: "\<exists>y. ?d' v = Some y \<and> y \<le> x + w"
    if "?d' u = Some x" "?cur' u = None" "A u v = Some w" "within co (x + w)" for u v x w
  proof -
    from that(1,2) have "d u = Some x" by (simp add: assign_struct_def)
    from bf_full_relax [OF inv3 inv4 bnd this that(3,4)] show ?thesis .
  qed
  show ?thesis
    unfolding bf_inv_def using c1 c2 c3 c4 by blast
qed

lemma bf_round_bound: "bf_round_exact co n A d cur j = Some m \<Longrightarrow> j < n"
  using vxm_Some(1) [of n cur A j m] by (simp add: bf_round_Some)

lemma bf_round_empty:
  assumes "nvals n (bf_round_exact co n A d cur) = 0"
  shows "bf_round_exact co n A d cur = (\<lambda>j. None)"
proof
  fix j
  show "bf_round_exact co n A d cur j = None"
  proof (cases "bf_round_exact co n A d cur j")
    case (Some m)
    from bf_round_bound [OF Some] assms Some show ?thesis by (auto simp: nvals_0)
  qed simp
qed

lemma assign_struct_empty: "assign_struct d (\<lambda>j. None) = d"
  by (rule ext) (simp add: assign_struct_def)

lemma bf_inv_closed: "bf_inv S A co n k d (\<lambda>j. None) \<Longrightarrow> bf_closed A co d"
  unfolding bf_inv_def bf_closed_def by blast

lemma bf_loop_inv:
  assumes "bf_inv S A co n k d cur" and "bounded_mat n A"
    and "bf_loop_exact co n A r d cur = (b, d', cur')"
  shows "if b then cur' = (\<lambda>j. None) \<and> (\<exists>k'. k < k' \<and> k' \<le> k + r \<and> bf_inv S A co n k' d' cur')
         else bf_inv S A co n (k + r) d' cur'"
  using assms
proof (induction r arbitrary: k d cur)
  case 0
  then show ?case by simp
next
  case (Suc r)
  let ?c = "bf_round_exact co n A d cur"
  note step = bf_inv_step [OF Suc.prems(1,2)]
  show ?case
  proof (cases "nvals n ?c = 0")
    case True
    then have e: "?c = (\<lambda>j. None)" by (rule bf_round_empty)
    from Suc.prems(3) True have r: "b" "d' = d" "cur' = ?c" by (auto simp: Let_def)
    from step e have "bf_inv S A co n (Suc k) d (\<lambda>j. None)" by (simp add: assign_struct_empty)
    with r e show ?thesis by auto
  next
    case False
    with Suc.prems(3) have "bf_loop_exact co n A r (assign_struct d ?c) ?c = (b, d', cur')"
      by (simp add: Let_def)
    from Suc.IH [OF step Suc.prems(2) this] show ?thesis
      by (cases b) (auto intro: Suc_lessD)
  qed
qed

lemma is_walk_ne: "is_walk A vs \<Longrightarrow> vs \<noteq> []"
  by auto

lemma cwalk_is_walk: "cwalk A co vs \<Longrightarrow> is_walk A vs"
  by (simp add: cwalk_iff)

lemma bf_closed_walks:
  assumes cl: "bf_closed A co d"
    and seeds: "\<And>u. S u \<Longrightarrow> \<exists>y. d u = Some y \<and> y \<le> 0"
  shows "cwalk A co vs \<Longrightarrow> S (hd vs) \<Longrightarrow> \<exists>y. d (last vs) = Some y \<and> y \<le> walk_weight A vs"
proof (induction vs rule: rev_induct)
  case Nil
  then show ?case by (simp add: cwalk_iff)
next
  case (snoc v vs)
  show ?case
  proof (cases "vs = []")
    case True
    with snoc.prems seeds show ?thesis by simp
  next
    case False
    from snoc.prems(1) False have cw: "cwalk A co vs" and e: "A (last vs) v \<noteq> None"
      and wi: "within co (walk_weight A (vs @ [v]))"
      using cwalk_snoc [OF False, of A co v] by auto
    from e obtain w where w: "A (last vs) v = Some w" by auto
    have ww: "walk_weight A (vs @ [v]) = walk_weight A vs + w"
      using walk_weight_snoc [OF False, of A v] w by simp
    from snoc.prems(2) False have "S (hd vs)" by simp
    from snoc.IH [OF cw this] obtain x where x: "d (last vs) = Some x" "x \<le> walk_weight A vs"
      by blast
    have "within co (x + w)" using within_mono [OF wi, of "x + w"] ww x(2) by simp
    with cl x(1) w obtain y where "d v = Some y" "y \<le> x + w"
      unfolding bf_closed_def by blast
    with x(2) ww show ?thesis by force
  qed
qed

lemma bf_inv_seeds:
  assumes "bf_inv S A co n k d cur" "S u"
  shows "\<exists>y. d u = Some y \<and> y \<le> 0"
proof -
  have "reach S A co k u 0"
    unfolding reach_def using assms(2) by (intro exI [of _ "[u]"]) (simp add: cwalk_single)
  with assms(1) show ?thesis unfolding bf_inv_def by blast
qed

lemma cwalk_prefixes:
  "cwalk A co vs \<longleftrightarrow>
     is_walk A vs \<and> (\<forall>ps ss. vs = ps @ ss \<and> 2 \<le> length ps \<longrightarrow> within co (walk_weight A ps))"
proof -
  have "(\<forall>k. 2 \<le> k \<and> k \<le> length vs \<longrightarrow> within co (walk_weight A (take k vs))) \<longleftrightarrow>
        (\<forall>ps ss. vs = ps @ ss \<and> 2 \<le> length ps \<longrightarrow> within co (walk_weight A ps))"
    (is "?L \<longleftrightarrow> ?R")
  proof
    assume L: ?L
    show ?R
    proof (intro allI impI)
      fix ps ss assume a: "vs = ps @ ss \<and> 2 \<le> length ps"
      then have "take (length ps) vs = ps" by simp
      with L [rule_format, of "length ps"] a show "within co (walk_weight A ps)" by simp
    qed
  next
    assume R: ?R
    show ?L
    proof (intro allI impI)
      fix k assume k: "2 \<le> k \<and> k \<le> length vs"
      have "vs = take k vs @ drop k vs" by simp
      moreover have "2 \<le> length (take k vs)" using k by simp
      ultimately show "within co (walk_weight A (take k vs))" using R by blast
    qed
  qed
  then show ?thesis by (simp add: cwalk_iff)
qed

lemma walk_weight_cut:
  "walk_weight A (xs @ y # ys @ y # zs) =
     walk_weight A (xs @ y # zs) + walk_weight A (y # ys @ [y])"
proof -
  have "walk_weight A (xs @ y # ys @ y # zs) =
      walk_weight A (xs @ [y]) + walk_weight A ((y # ys) @ y # zs)"
    using walk_weight_append [of A xs y "ys @ y # zs"] by simp
  also have "walk_weight A ((y # ys) @ y # zs) =
      walk_weight A ((y # ys) @ [y]) + walk_weight A (y # zs)"
    by (rule walk_weight_append)
  finally show ?thesis
    using walk_weight_append [of A xs y zs] by simp
qed

lemma is_walk_cut:
  assumes "is_walk A (xs @ y # ys @ y # zs)"
  shows "is_walk A (xs @ y # zs)" and "is_walk A (y # ys @ [y])" and "is_walk A (xs @ [y])"
proof -
  from assms have a: "is_walk A (xs @ [y])" and b: "is_walk A ((y # ys) @ y # zs)"
    using is_walk_append [of A xs y "ys @ y # zs"] by simp_all
  from b have c: "is_walk A ((y # ys) @ [y])" and d: "is_walk A (y # zs)"
    using is_walk_append [of A "y # ys" y zs] by simp_all
  show "is_walk A (xs @ y # zs)" using a d is_walk_append [of A xs y zs] by simp
  show "is_walk A (y # ys @ [y])" using c by simp
  show "is_walk A (xs @ [y])" by (rule a)
qed

lemma cwalk_cut:
  assumes cw: "cwalk A co (xs @ y # ys @ y # zs)"
    and c: "0 \<le> walk_weight A (y # ys @ [y])"
  shows "cwalk A co (xs @ y # zs)"
proof -
  from cw have w: "is_walk A (xs @ y # ys @ y # zs)"
    and pre: "\<And>ps ss. xs @ y # ys @ y # zs = ps @ ss \<Longrightarrow> 2 \<le> length ps \<Longrightarrow>
       within co (walk_weight A ps)"
    by (auto simp: cwalk_prefixes)
  have "within co (walk_weight A ps)" if eq: "xs @ y # zs = ps @ ss" and len: "2 \<le> length ps"
    for ps ss
  proof -
    from eq have "(xs @ [y]) @ zs = ps @ ss" by simp
    then have "\<exists>us. xs @ [y] = ps @ us \<and> us @ zs = ss \<or> (xs @ [y]) @ us = ps \<and> zs = us @ ss"
      by (rule append_eq_append_conv2 [THEN iffD1])
    then consider us where "xs @ [y] = ps @ us" "us @ zs = ss"
      | us where "(xs @ [y]) @ us = ps" "zs = us @ ss"
      by blast
    then show ?thesis
    proof cases
      case 1
      then have "xs @ y # ys @ y # zs = ps @ (us @ ys @ y # zs)"
        by (metis append.assoc append_Cons append_Nil)
      from pre [OF this len] show ?thesis .
    next
      case 2
      then have p: "ps = xs @ y # us" by simp
      have "xs @ y # ys @ y # zs = (xs @ y # ys @ y # us) @ ss"
        using 2 by simp
      from pre [OF this] have "within co (walk_weight A (xs @ y # ys @ y # us))" by simp
      then show ?thesis
        using within_mono [of co "walk_weight A (xs @ y # ys @ y # us)" "walk_weight A ps"]
          walk_weight_cut [of A xs y ys us] c p by simp
    qed
  qed
  with is_walk_cut(1) [OF w] show ?thesis by (auto simp: cwalk_prefixes)
qed

lemma walk_shorten:
  assumes nn: "\<not> neg_cycle_from A S"
  shows "cwalk A co vs \<Longrightarrow> S (hd vs) \<Longrightarrow>
     \<exists>vs'. cwalk A co vs' \<and> hd vs' = hd vs \<and> last vs' = last vs \<and> distinct vs' \<and>
        walk_weight A vs' \<le> walk_weight A vs"
proof (induction "length vs" arbitrary: vs rule: less_induct)
  case less
  show ?case
  proof (cases "distinct vs")
    case True
    with less.prems show ?thesis by blast
  next
    case False
    then obtain xs ys zs y where vs: "vs = xs @ [y] @ ys @ [y] @ zs"
      using not_distinct_decomp by blast
    then have vs': "vs = xs @ y # ys @ y # zs" by simp
    from less.prems(1) have w: "is_walk A vs" by (rule cwalk_is_walk)
    note cut = is_walk_cut [OF w [unfolded vs']]
    have hd1: "hd (xs @ [y]) = hd vs" using vs' by (cases xs) auto
    have "0 \<le> walk_weight A (y # ys @ [y])"
    proof (rule ccontr)
      assume "\<not> 0 \<le> walk_weight A (y # ys @ [y])"
      then have "neg_cycle_from A S"
        unfolding neg_cycle_from_def
        using cut(2,3) hd1 less.prems(2)
        by (intro exI [of _ "xs @ [y]"] exI [of _ "y # ys @ [y]"]) simp
      with nn show False ..
    qed
    note c = this
    let ?us = "xs @ y # zs"
    have cu: "cwalk A co ?us" using cwalk_cut [OF less.prems(1) [unfolded vs'] c] .
    have len: "length ?us < length vs" using vs' by simp
    have hd2: "hd ?us = hd vs" using vs' by (cases xs) auto
    have la: "last ?us = last vs" using vs' by simp
    have wu: "walk_weight A ?us \<le> walk_weight A vs"
      using walk_weight_cut [of A xs y ys zs] c vs' by simp
    from less.hyps [OF len cu] hd2 less.prems(2)
    obtain vs'' where "cwalk A co vs''" "hd vs'' = hd ?us" "last vs'' = last ?us"
      "distinct vs''" "walk_weight A vs'' \<le> walk_weight A ?us" by auto
    with hd2 la wu show ?thesis
      by (intro exI [of _ vs'']) simp
  qed
qed

lemma offdiag_Some:
  "offdiag G i j = Some w \<longleftrightarrow> adj G i j = Some w \<and> i < nnodes G \<and> j < nnodes G \<and> i \<noteq> j"
  by (simp add: offdiag_def)

lemma bounded_offdiag: "bounded_mat (nnodes G) (offdiag G)"
  by (auto simp: bounded_mat_def offdiag_def split: if_splits)

lemma is_walk_prefix: "is_walk A (ps @ ss) \<Longrightarrow> ps \<noteq> [] \<Longrightarrow> is_walk A ps"
proof (induction ss rule: rev_induct)
  case Nil
  then show ?case by simp
next
  case (snoc s ss)
  from snoc.prems have "is_walk A ((ps @ ss) @ [s])" by simp
  then have "is_walk A (ps @ ss)" using snoc.prems(2) by (simp only: is_walk_snoc) simp
  with snoc show ?case by simp
qed

lemma offdiag_walk:
  "is_walk (offdiag G) vs \<Longrightarrow>
     is_walk (adj G) vs \<and> walk_weight (adj G) vs = walk_weight (offdiag G) vs"
proof (induction "offdiag G" vs rule: is_walk.induct)
  case (3 u v vs)
  from "3.prems" obtain w where w: "offdiag G u v = Some w" by auto
  then have "adj G u v = Some w" by (simp add: offdiag_Some)
  with 3 w show ?case by simp
qed simp_all

lemma distinct_walk:
  assumes wf: "wf_graph G"
  shows "is_walk (adj G) vs \<Longrightarrow> distinct vs \<Longrightarrow>
     is_walk (offdiag G) vs \<and> walk_weight (offdiag G) vs = walk_weight (adj G) vs"
proof (induction "adj G" vs rule: is_walk.induct)
  case (3 u v vs)
  from "3.prems" obtain w where w: "adj G u v = Some w" by auto
  with wf have "u < nnodes G" "v < nnodes G" by (auto simp: wf_graph_def)
  moreover from "3.prems" have "u \<noteq> v" by auto
  ultimately have "offdiag G u v = Some w" using w by (simp add: offdiag_Some)
  with 3 w show ?case by simp
qed simp_all

lemma offdiag_cwalk:
  assumes "cwalk (offdiag G) co vs"
  shows "cwalk (adj G) co vs"
proof -
  from assms have w: "is_walk (offdiag G) vs" by (rule cwalk_is_walk)
  have "within co (walk_weight (adj G) ps)" if "vs = ps @ ss" "2 \<le> length ps" for ps ss
  proof -
    from that have "ps \<noteq> []" by auto
    with w that(1) have "is_walk (offdiag G) ps" using is_walk_prefix by blast
    from offdiag_walk [OF this] assms that show ?thesis by (auto simp: cwalk_prefixes)
  qed
  with offdiag_walk [OF w] show ?thesis by (auto simp: cwalk_prefixes)
qed

lemma distinct_cwalk:
  assumes wf: "wf_graph G" and cw: "cwalk (adj G) co vs" and di: "distinct vs"
  shows "cwalk (offdiag G) co vs"
proof -
  from cw have w: "is_walk (adj G) vs" by (rule cwalk_is_walk)
  have "within co (walk_weight (offdiag G) ps)" if "vs = ps @ ss" "2 \<le> length ps" for ps ss
  proof -
    from that have "ps \<noteq> []" by auto
    with w that(1) have "is_walk (adj G) ps" using is_walk_prefix by blast
    moreover from di that(1) have "distinct ps" by simp
    ultimately show ?thesis
      using distinct_walk [OF wf, of ps] cw that by (auto simp: cwalk_prefixes)
  qed
  with distinct_walk [OF wf w di] show ?thesis by (auto simp: cwalk_prefixes)
qed

lemma walk_nodes:
  assumes wf: "wf_graph G"
  shows "is_walk (adj G) vs \<Longrightarrow> hd vs < nnodes G \<Longrightarrow> \<forall>v\<in>set vs. v < nnodes G"
proof (induction "adj G" vs rule: is_walk.induct)
  case (3 u v vs)
  from "3.prems" wf have "v < nnodes G" by (auto simp: wf_graph_def)
  with 3 show ?case by simp
qed simp_all

lemma distinct_walk_length:
  assumes "\<forall>v\<in>set vs. v < n" "distinct vs"
  shows "length vs \<le> n"
proof -
  have "card (set vs) \<le> card {..<n}"
    using assms(1) by (intro card_mono) auto
  with assms(2) show ?thesis by (simp add: distinct_card)
qed

lemma any_lt_iff:
  "any_lt n c d \<longleftrightarrow> (\<exists>j<n. \<exists>x y. c j = Some x \<and> d j = Some y \<and> x < y)"
proof -
  have "(case (c j, d j) of (Some x, Some y) \<Rightarrow> x < y | _ \<Rightarrow> False) \<longleftrightarrow>
      (\<exists>x y. c j = Some x \<and> d j = Some y \<and> x < y)" for j
    by (cases "c j"; cases "d j") auto
  then show ?thesis
    by (simp add: any_lt_def list_ex_iff Bex_def)
qed

lemma apply_cutoff_Some:
  "apply_cutoff co c j = Some m \<longleftrightarrow> c j = Some m \<and> within co m"
  by (cases co; cases "c j") (auto simp: apply_cutoff_def select_valuele_def within_def)

lemma neg_diag_iff:
  "any_pair_dot (nnodes G) d (select_valuelt (diag G) 0) \<longleftrightarrow>
     (\<exists>j<nnodes G. d j \<noteq> None \<and> (\<exists>w. adj G j j = Some w \<and> w < 0))"
proof -
  have "select_valuelt (diag G) 0 j \<noteq> None \<longleftrightarrow> (\<exists>w. adj G j j = Some w \<and> w < 0)"
    if "j < nnodes G" for j
    using that by (cases "adj G j j") (auto simp: select_valuelt_def diag_def)
  then show ?thesis
    by (auto simp: any_pair_dot_def list_ex_iff)
qed

lemma has_negative_diagonal_iff:
  "has_negative_diagonal G \<longleftrightarrow> (\<exists>j<nnodes G. \<exists>w. adj G j j = Some w \<and> w < 0)"
proof -
  have "(case adj G j j of Some w \<Rightarrow> w < 0 | None \<Rightarrow> False) \<longleftrightarrow> (\<exists>w. adj G j j = Some w \<and> w < 0)"
    for j by (cases "adj G j j") auto
  then show ?thesis
    by (simp add: has_negative_diagonal_def list_ex_iff Bex_def)
qed

lemma bf_sound:
  assumes "bf_inv S (offdiag G) co n k d cur" "d v = Some x"
  shows "\<exists>vs. cwalk (offdiag G) co vs \<and> cwalk (adj G) co vs \<and> S (hd vs) \<and> last vs = v \<and>
     walk_weight (adj G) vs = x"
proof -
  from assms obtain vs where vs: "cwalk (offdiag G) co vs" "S (hd vs)" "last vs = v"
    "walk_weight (offdiag G) vs = x"
    unfolding bf_inv_def reach_def by blast
  from offdiag_walk [OF cwalk_is_walk [OF vs(1)]] offdiag_cwalk [OF vs(1)] vs
  show ?thesis by auto
qed

lemma bf_complete:
  assumes wf: "wf_graph G" and S: "\<And>u. S u \<Longrightarrow> u < nnodes G"
    and nn: "\<not> neg_cycle_from (adj G) S"
    and inv: "bf_inv S (offdiag G) co (nnodes G) k d cur"
    and fin: "k = nnodes G - 1 \<or> cur = (\<lambda>j. None)"
    and cw: "cwalk (adj G) co vs" and hd: "S (hd vs)"
  shows "\<exists>y. d (last vs) = Some y \<and> y \<le> walk_weight (adj G) vs"
proof -
  from walk_shorten [OF nn cw hd] obtain us where us: "cwalk (adj G) co us" "hd us = hd vs"
    "last us = last vs" "distinct us" "walk_weight (adj G) us \<le> walk_weight (adj G) vs"
    by blast
  have w: "is_walk (adj G) us" using us(1) by (rule cwalk_is_walk)
  have co: "cwalk (offdiag G) co us" using distinct_cwalk [OF wf us(1,4)] .
  have ww: "walk_weight (offdiag G) us = walk_weight (adj G) us"
    using distinct_walk [OF wf w us(4)] by simp
  have hdS: "S (hd us)" using hd us(2) by simp
  have "\<exists>y. d (last us) = Some y \<and> y \<le> walk_weight (offdiag G) us"
  proof (cases "cur = (\<lambda>j. None)")
    case True
    with inv have "bf_closed (offdiag G) co d" by (simp add: bf_inv_closed)
    then show ?thesis
      using bf_closed_walks [of "offdiag G" co d S us] bf_inv_seeds [OF inv] co hdS by blast
  next
    case False
    with fin have k: "k = nnodes G - 1" by simp
    from walk_nodes [OF wf w] S [OF hdS] have "\<forall>v\<in>set us. v < nnodes G" by simp
    from distinct_walk_length [OF this us(4)] have "length us \<le> nnodes G" .
    moreover have "us \<noteq> []" using w by auto
    ultimately have "length us \<le> Suc k" using k by simp
    with co hdS have "reach S (offdiag G) co k (last us) (walk_weight (offdiag G) us)"
      unfolding reach_def by blast
    with inv show ?thesis unfolding bf_inv_def by blast
  qed
  with ww us show ?thesis by force
qed

lemma no_final_improve:
  assumes wf: "wf_graph G" and S: "\<And>u. S u \<Longrightarrow> u < nnodes G"
    and nn: "\<not> neg_cycle_from (adj G) S"
    and inv: "bf_inv S (offdiag G) co (nnodes G) k d cur"
    and fin: "k = nnodes G - 1 \<or> cur = (\<lambda>j. None)"
  shows "\<not> any_lt (nnodes G) (apply_cutoff co (vxm_min_plus_exact (nnodes G) cur (offdiag G))) d"
proof
  assume "any_lt (nnodes G) (apply_cutoff co (vxm_min_plus_exact (nnodes G) cur (offdiag G))) d"
  then obtain j m y where j: "j < nnodes G"
    "vxm_min_plus_exact (nnodes G) cur (offdiag G) j = Some m" "within co m" "d j = Some y" "m < y"
    by (auto simp: any_lt_iff apply_cutoff_Some)
  from vxm_Some(2) [OF j(2)] obtain u xu w where u: "cur u = Some xu"
    "offdiag G u j = Some w" "m = xu + w" by blast
  from inv u(1) have du: "d u = Some xu" unfolding bf_inv_def by blast
  from bf_sound [OF inv du] obtain vs where vs: "cwalk (offdiag G) co vs" "S (hd vs)"
    "last vs = u" "walk_weight (adj G) vs = xu" by blast
  have ne: "vs \<noteq> []" using cwalk_is_walk [OF vs(1)] by auto
  have wo: "walk_weight (offdiag G) vs = xu"
    using offdiag_walk [OF cwalk_is_walk [OF vs(1)]] vs(4) by simp
  have wj: "walk_weight (offdiag G) (vs @ [j]) = m"
    using walk_weight_snoc [OF ne, of "offdiag G" j] vs(3) u wo by simp
  have "cwalk (offdiag G) co (vs @ [j])"
    using cwalk_snoc [OF ne, of "offdiag G" co j] vs u wj j(3) by simp
  then have c2: "cwalk (adj G) co (vs @ [j])" and w2: "walk_weight (adj G) (vs @ [j]) = m"
    using offdiag_cwalk offdiag_walk [OF cwalk_is_walk, of G co "vs @ [j]"] wj by auto
  have "S (hd (vs @ [j]))" using ne vs(2) by simp
  from bf_complete [OF wf S nn inv fin c2 this] w2 j(4,5) show False by simp
qed

lemma single_source_general_unfold:
  "single_source_general_exact G s co =
     (case bf_loop_exact co (nnodes G) (offdiag G) (nnodes G - 1)
             (\<lambda>j. if j = s then Some 0 else None) (\<lambda>j. if j = s then Some 0 else None) of
        (broke, d, cur) \<Rightarrow>
          if \<not> broke \<and> any_lt (nnodes G)
               (apply_cutoff co (vxm_min_plus_exact (nnodes G) cur (offdiag G))) d
          then Inl Unbounded
          else if has_negative_diagonal G \<and>
                  any_pair_dot (nnodes G) d (select_valuelt (diag G) 0)
          then Inl Unbounded
          else Inr d)"
  by (simp add: single_source_general_exact_def Let_def)

lemma bf_loop_final:
  assumes S: "\<And>u. S u \<Longrightarrow> u < nnodes G"
    and loop: "bf_loop_exact co (nnodes G) (offdiag G) (nnodes G - 1)
       (\<lambda>j. if S j then Some 0 else None) (\<lambda>j. if S j then Some 0 else None) = (b, d, cur)"
  shows "\<exists>k. bf_inv S (offdiag G) co (nnodes G) k d cur \<and> k \<le> nnodes G - 1 \<and>
     (if b then cur = (\<lambda>j. None) else k = nnodes G - 1)"
proof -
  have "bf_inv S (offdiag G) co (nnodes G) 0 (\<lambda>j. if S j then Some 0 else None)
      (\<lambda>j. if S j then Some 0 else None)"
    using S by (rule bf_inv_init)
  from bf_loop_inv [OF this bounded_offdiag loop] show ?thesis
    by (cases b) auto
qed

lemma self_loop_neg_cycle:
  assumes "is_walk A ps" "S (hd ps)" "A (last ps) (last ps) = Some w" "w < 0"
  shows "neg_cycle_from A S"
  unfolding neg_cycle_from_def using assms
  by (intro exI [of _ ps] exI [of _ "[last ps, last ps]"]) simp

lemma general_correct:
  assumes wf: "wf_graph G" and s: "s < nnodes G"
    and nn: "\<not> neg_cycle_from (adj G) (\<lambda>j. j = s)"
  shows "\<exists>d. single_source_general_exact G s co = Inr d \<and>
     (\<forall>v x. d v = Some x \<longleftrightarrow> is_dist (adj G) co s v x) \<and>
     (\<forall>v vs. walk_to (adj G) co s v vs \<longrightarrow> d v \<noteq> None)"
proof -
  let ?S = "\<lambda>j. j = s"
  obtain b d cur where loop: "bf_loop_exact co (nnodes G) (offdiag G) (nnodes G - 1)
       (\<lambda>j. if ?S j then Some 0 else None) (\<lambda>j. if ?S j then Some 0 else None) = (b, d, cur)"
    using prod_cases3 by blast
  have S: "\<And>u. ?S u \<Longrightarrow> u < nnodes G" using s by simp
  from bf_loop_final [of ?S G co b d cur, OF S loop] obtain k
    where inv: "bf_inv ?S (offdiag G) co (nnodes G) k d cur"
      and fin: "k = nnodes G - 1 \<or> cur = (\<lambda>j. None)"
    by (cases b) auto
  have a: "\<not> any_lt (nnodes G) (apply_cutoff co (vxm_min_plus_exact (nnodes G) cur (offdiag G))) d"
    using no_final_improve [of G ?S co k d cur] wf S nn inv fin by blast
  have b: "\<not> any_pair_dot (nnodes G) d (select_valuelt (diag G) 0)"
  proof
    assume "any_pair_dot (nnodes G) d (select_valuelt (diag G) 0)"
    then obtain j x w where j: "d j = Some x" "adj G j j = Some w" "w < 0"
      by (auto simp: neg_diag_iff)
    from bf_sound [OF inv j(1)] obtain ps where "cwalk (adj G) co ps" "hd ps = s" "last ps = j"
      by blast
    with j have "neg_cycle_from (adj G) ?S"
      using self_loop_neg_cycle [of "adj G" ps ?S w] cwalk_is_walk by auto
    with nn show False ..
  qed
  have r: "single_source_general_exact G s co = Inr d"
    using loop a b by (simp add: single_source_general_unfold)
  have c: "\<exists>y. d v = Some y \<and> y \<le> walk_weight (adj G) vs" if "walk_to (adj G) co s v vs" for v vs
    using bf_complete [of G ?S co k d cur vs] wf S nn inv fin that
    by (auto simp: walk_to_def)
  have "d v = Some x \<longleftrightarrow> is_dist (adj G) co s v x" for v x
  proof
    assume dv: "d v = Some x"
    from bf_sound [OF inv dv] have "\<exists>vs. walk_to (adj G) co s v vs \<and> walk_weight (adj G) vs = x"
      by (auto simp: walk_to_def)
    moreover have "\<forall>vs. walk_to (adj G) co s v vs \<longrightarrow> x \<le> walk_weight (adj G) vs"
      using c dv by fastforce
    ultimately show "is_dist (adj G) co s v x" by (simp add: is_dist_def)
  next
    assume di: "is_dist (adj G) co s v x"
    then obtain vs where vs: "walk_to (adj G) co s v vs" "walk_weight (adj G) vs = x"
      by (auto simp: is_dist_def)
    from c [OF vs(1)] vs(2) obtain y where y: "d v = Some y" "y \<le> x" by auto
    from bf_sound [OF inv y(1)] obtain us where "walk_to (adj G) co s v us"
      "walk_weight (adj G) us = y" by (auto simp: walk_to_def)
    with di have "x \<le> y" by (auto simp: is_dist_def)
    with y show "d v = Some x" by simp
  qed
  moreover have "d v \<noteq> None" if "walk_to (adj G) co s v vs" for v vs
    using c [OF that] by auto
  ultimately show ?thesis using r by blast
qed

lemma potential:
  assumes wf: "wf_graph G" and cl: "bf_closed (offdiag G) None d"
    and nd: "\<forall>j w. d j \<noteq> None \<and> adj G j j = Some w \<longrightarrow> 0 \<le> w"
  shows "is_walk (adj G) vs \<Longrightarrow> d (hd vs) = Some x \<Longrightarrow>
     \<exists>y. d (last vs) = Some y \<and> y \<le> x + walk_weight (adj G) vs"
proof (induction "adj G" vs arbitrary: x rule: is_walk.induct)
  case 1
  then show ?case by simp
next
  case (2 v)
  then show ?case by simp
next
  case (3 u v vs)
  from "3.prems" obtain w where w: "adj G u v = Some w" and wk: "is_walk (adj G) (v # vs)"
    and du: "d u = Some x" by auto
  have "\<exists>y'. d v = Some y' \<and> y' \<le> x + w"
  proof (cases "u = v")
    case True
    with nd du w show ?thesis by auto
  next
    case False
    from w wf have "u < nnodes G" "v < nnodes G" by (auto simp: wf_graph_def)
    with False w have "offdiag G u v = Some w" by (simp add: offdiag_Some)
    with cl du show ?thesis unfolding bf_closed_def within_def by auto
  qed
  then obtain y' where y': "d v = Some y'" "y' \<le> x + w" by blast
  from "3.hyps" [OF wk, of y'] y'(1) obtain y where
    "d (last (v # vs)) = Some y" "y \<le> y' + walk_weight (adj G) (v # vs)" by auto
  with y'(2) w show ?case by simp
qed

lemma closed_no_neg_cycle:
  assumes wf: "wf_graph G" and cl: "bf_closed (offdiag G) None d"
    and nd: "\<forall>j w. d j \<noteq> None \<and> adj G j j = Some w \<longrightarrow> 0 \<le> w"
    and seeds: "\<forall>u. S u \<longrightarrow> d u \<noteq> None"
  shows "\<not> neg_cycle_from (adj G) S"
proof
  assume "neg_cycle_from (adj G) S"
  then obtain ps cs where pc: "is_walk (adj G) ps" "S (hd ps)" "is_walk (adj G) cs"
    "hd cs = last ps" "last cs = hd cs" "walk_weight (adj G) cs < 0"
    unfolding neg_cycle_from_def by blast
  from seeds pc(2) obtain x0 where "d (hd ps) = Some x0" by auto
  from potential [OF wf cl nd pc(1) this] obtain x where x: "d (last ps) = Some x" by blast
  with pc(4) have "d (hd cs) = Some x" by simp
  from potential [OF wf cl nd pc(3) this] pc(5) x pc(4) pc(6) show False by simp
qed

lemma unweighted_walk: "is_walk (unweighted A) vs = is_walk A vs"
  by (induction A vs rule: is_walk.induct) (auto simp: unweighted_def)

lemma unweighted_weight: "walk_weight (unweighted A) vs = 0"
  by (induction A vs rule: walk_weight.induct) (auto simp: unweighted_def split: option.splits)

lemma cwalk_None: "cwalk A None vs = is_walk A vs"
  by (simp add: cwalk_iff within_def)

lemma walk_distinct:
  assumes "is_walk A vs"
  shows "\<exists>us. is_walk A us \<and> hd us = hd vs \<and> last us = last vs \<and> distinct us"
proof -
  have "\<not> neg_cycle_from (unweighted A) (\<lambda>j. j = hd vs)"
    by (simp add: neg_cycle_from_def unweighted_weight)
  from walk_shorten [OF this, of None vs] assms show ?thesis
    by (auto simp: cwalk_None unweighted_walk)
qed

lemma exhausted_closed:
  assumes wf: "wf_graph G" and S: "\<And>u. S u \<Longrightarrow> u < nnodes G"
    and inv: "bf_inv S (offdiag G) None (nnodes G) (nnodes G - 1) d cur"
    and na: "\<not> any_lt (nnodes G) (vxm_min_plus_exact (nnodes G) cur (offdiag G)) d"
  shows "bf_closed (offdiag G) None d"
  unfolding bf_closed_def
proof (intro allI impI)
  fix u v x w
  assume a: "d u = Some x \<and> offdiag G u v = Some w \<and> within None (x + w)"
  then have du: "d u = Some x" and e: "offdiag G u v = Some w" by simp_all
  from e have uv: "u < nnodes G" "v < nnodes G" by (simp_all add: offdiag_Some)
  show "\<exists>y. d v = Some y \<and> y \<le> x + w"
  proof (cases "cur u")
    case None
    with inv du e show ?thesis unfolding bf_inv_def within_def by auto
  next
    case (Some x')
    with inv du have cu: "cur u = Some x" unfolding bf_inv_def by force
    from vxm_le [of v "nnodes G" u cur x "offdiag G" w] uv cu e obtain m where
      m: "vxm_min_plus_exact (nnodes G) cur (offdiag G) v = Some m" "m \<le> x + w" by blast
    from bf_sound [OF inv du] obtain ps where ps: "cwalk (offdiag G) None ps" "S (hd ps)"
      "last ps = u" by blast
    have ne: "ps \<noteq> []" using cwalk_is_walk [OF ps(1)] by auto
    have "is_walk (offdiag G) (ps @ [v])"
      using cwalk_is_walk [OF ps(1)] ps(3) e by (simp add: is_walk_snoc)
    then have "is_walk (adj G) (ps @ [v])" using offdiag_walk by blast
    from walk_distinct [OF this] obtain us where us: "is_walk (adj G) us"
      "hd us = hd ps" "last us = v" "distinct us" using ne by auto
    have "S (hd us)" using us(2) ps(2) by simp
    from walk_nodes [OF wf us(1)] S [OF this] have "\<forall>z\<in>set us. z < nnodes G" by simp
    from distinct_walk_length [OF this us(4)] have "length us \<le> nnodes G" .
    moreover have "us \<noteq> []" using us(1) by auto
    ultimately have len: "length us \<le> Suc (nnodes G - 1)" by simp
    have "cwalk (offdiag G) None us"
      using distinct_walk [OF wf us(1,4)] by (simp add: cwalk_None)
    with \<open>S (hd us)\<close> us(3) len
    have "reach S (offdiag G) None (nnodes G - 1) v (walk_weight (offdiag G) us)"
      unfolding reach_def by blast
    with inv obtain y where y: "d v = Some y" unfolding bf_inv_def by blast
    with na m(1) uv(2) have "\<not> m < y" by (auto simp: any_lt_iff)
    with y m(2) show ?thesis by simp
  qed
qed

lemma general_no_cycle:
  assumes wf: "wf_graph G" and s: "s < nnodes G"
    and r: "single_source_general_exact G s None = Inr d"
  shows "\<not> neg_cycle_from (adj G) (\<lambda>j. j = s)"
proof -
  let ?S = "\<lambda>j. j = s"
  obtain b d' cur where loop: "bf_loop_exact None (nnodes G) (offdiag G) (nnodes G - 1)
       (\<lambda>j. if ?S j then Some 0 else None) (\<lambda>j. if ?S j then Some 0 else None) = (b, d', cur)"
    using prod_cases3 by blast
  have S: "\<And>u. ?S u \<Longrightarrow> u < nnodes G" using s by simp
  from r loop have d: "d' = d"
    and na: "b \<or> \<not> any_lt (nnodes G) (vxm_min_plus_exact (nnodes G) cur (offdiag G)) d"
    and nd: "\<not> (has_negative_diagonal G \<and> any_pair_dot (nnodes G) d (select_valuelt (diag G) 0))"
    by (auto simp: single_source_general_unfold apply_cutoff_def split: if_splits)
  from bf_loop_final [of ?S G None b d' cur, OF S loop] d obtain k
    where inv: "bf_inv ?S (offdiag G) None (nnodes G) k d cur"
      and fin: "if b then cur = (\<lambda>j. None) else k = nnodes G - 1"
    by auto
  have cl: "bf_closed (offdiag G) None d"
  proof (cases b)
    case True
    with inv fin show ?thesis by (simp add: bf_inv_closed)
  next
    case False
    with na fin inv show ?thesis
      using exhausted_closed [of G ?S d cur] wf S by simp
  qed
  have dn: "\<And>j. d j \<noteq> None \<Longrightarrow> j < nnodes G"
    using inv unfolding bf_inv_def by auto
  have "0 \<le> w" if "d j \<noteq> None" "adj G j j = Some w" for j w
  proof (rule ccontr)
    assume "\<not> 0 \<le> w"
    with that dn [OF that(1)] have "has_negative_diagonal G"
      and "any_pair_dot (nnodes G) d (select_valuelt (diag G) 0)"
      by (auto simp: has_negative_diagonal_iff neg_diag_iff)
    with nd show False by simp
  qed
  then have nd': "\<forall>j w. d j \<noteq> None \<and> adj G j j = Some w \<longrightarrow> 0 \<le> w" by blast
  have "d u \<noteq> None" if "?S u" for u
    using bf_inv_seeds [OF inv that] by auto
  then have "\<forall>u. ?S u \<longrightarrow> d u \<noteq> None" by blast
  from closed_no_neg_cycle [of G d ?S, OF wf cl nd' this] show ?thesis by simp
qed

lemma option_eqI: "(\<And>m. a = Some m \<longleftrightarrow> b = Some m) \<Longrightarrow> a = b"
  by (cases a; cases b) auto

lemma vxm_uniform:
  assumes cur: "cur = (\<lambda>j. if q j then Some a else None)"
    and A: "\<forall>i j x. A i j = Some x \<longrightarrow> x = w"
  shows "vxm_min_plus_exact n cur A j =
     (if j < n \<and> (\<exists>u<n. q u \<and> A u j \<noteq> None) then Some (a + w) else None)"
proof (cases "vxm_min_plus_exact n cur A j")
  case None
  then show ?thesis by (auto simp: vxm_None cur)
next
  case (Some m)
  from vxm_Some(1,2) [OF Some] obtain i x w' where
    i: "j < n" "i < n" "cur i = Some x" "A i j = Some w'" "m = x + w'" by blast
  from i(3) have "q i" "x = a" by (auto simp: cur split: if_splits)
  moreover from i(4) A have "w' = w" by blast
  ultimately show ?thesis using Some i by auto
qed

lemma bfs_frontier_iff:
  "bfs_frontier n A q v j \<longleftrightarrow> j < n \<and> v j = None \<and> (\<exists>i<n. q i \<and> A i j \<noteq> None)"
  by (auto simp: bfs_frontier_def list_ex_iff)

lemma iso_round:
  assumes uni: "\<forall>i j x. adj G i j = Some x \<longrightarrow> x = w \<and> 0 \<le> w"
    and dep: "beyond_depth depth (Suc l) \<longleftrightarrow> \<not> within co (int (Suc l) * w)"
    and d: "d = scale_exact w v" and cur: "cur = (\<lambda>j. if q j then Some (int l * w) else None)"
    and qv: "\<forall>j. q j \<longrightarrow> v j = Some (int l)" and vl: "\<forall>j x. v j = Some x \<longrightarrow> x \<le> int l"
  shows "bf_round_exact co (nnodes G) (offdiag G) d cur =
     (\<lambda>j. if \<not> beyond_depth depth (Suc l) \<and> bfs_frontier (nnodes G) (adj G) q v j
           then Some (int (Suc l) * w) else None)"
proof (rule ext, rule option_eqI)
  fix j m
  let ?n = "nnodes G"
  have A: "\<forall>i j x. offdiag G i j = Some x \<longrightarrow> x = w"
    using uni by (auto simp: offdiag_Some)
  have sl: "int l * w + w = int (Suc l) * w" by (simp add: algebra_simps)
  note vx = vxm_uniform [OF cur A, of ?n j, unfolded sl]
  show "bf_round_exact co ?n (offdiag G) d cur j = Some m \<longleftrightarrow>
     (if \<not> beyond_depth depth (Suc l) \<and> bfs_frontier ?n (adj G) q v j
      then Some (int (Suc l) * w) else None) = Some m" (is "?L \<longleftrightarrow> ?R")
  proof
    assume ?L
    then have v1: "vxm_min_plus_exact ?n cur (offdiag G) j = Some m" and wi: "within co m"
      and imp: "\<forall>y. d j = Some y \<longrightarrow> m < y" by (auto simp: bf_round_Some)
    from v1 vx obtain u where u: "j < ?n" "u < ?n" "q u" "offdiag G u j \<noteq> None"
      and m: "m = int (Suc l) * w" by (auto split: if_splits)
    from u(4) obtain x where x: "adj G u j = Some x" by (auto simp: offdiag_def split: if_splits)
    with uni have w0: "0 \<le> w" by blast
    have "v j = None"
    proof (cases "v j")
      case (Some y)
      with vl have "y \<le> int l" by blast
      then have "y * w \<le> int l * w" using w0 by (rule mult_right_mono)
      also have "\<dots> \<le> int (Suc l) * w" using w0 by (simp add: algebra_simps)
      finally have "\<not> m < y * w" using m by simp
      moreover have "d j = Some (y * w)" using Some by (simp add: d scale_exact_def)
      ultimately show ?thesis using imp by blast
    qed simp
    with u x have "bfs_frontier ?n (adj G) q v j" by (auto simp: bfs_frontier_iff)
    moreover have "\<not> beyond_depth depth (Suc l)" using dep wi m by simp
    ultimately show ?R using m by simp
  next
    assume ?R
    then have nb: "\<not> beyond_depth depth (Suc l)" and fr: "bfs_frontier ?n (adj G) q v j"
      and m: "m = int (Suc l) * w" by (auto split: if_splits)
    from fr obtain i where i: "j < ?n" "v j = None" "i < ?n" "q i" "adj G i j \<noteq> None"
      by (auto simp: bfs_frontier_iff)
    from i(2,4) qv have "i \<noteq> j" by auto
    with i have "offdiag G i j \<noteq> None" by (simp add: offdiag_def)
    with i vx have "vxm_min_plus_exact ?n cur (offdiag G) j = Some m" using m by auto
    moreover have "within co m" using nb dep m by simp
    moreover have "d j = None" using i(2) by (simp add: d scale_exact_def)
    ultimately show ?L by (simp add: bf_round_Some)
  qed
qed

lemma iso_simulation:
  assumes uni: "\<forall>i j x. adj G i j = Some x \<longrightarrow> x = w \<and> 0 \<le> w"
    and dep: "\<forall>l. beyond_depth depth (Suc l) \<longleftrightarrow> \<not> within co (int (Suc l) * w)"
  shows "d = scale_exact w v \<Longrightarrow> cur = (\<lambda>j. if q j then Some (int l * w) else None) \<Longrightarrow>
     \<forall>j. q j \<longrightarrow> v j = Some (int l) \<Longrightarrow> \<forall>j x. v j = Some x \<longrightarrow> x \<le> int l \<Longrightarrow>
     bf_loop_exact co (nnodes G) (offdiag G) k d cur = (b, d', cur') \<Longrightarrow>
     d' = scale_exact w (bfs_loop (nnodes G) (adj G) depth k (Suc l) v q) \<and>
     (\<not> b \<longrightarrow> \<not> any_lt (nnodes G)
        (apply_cutoff co (vxm_min_plus_exact (nnodes G) cur' (offdiag G))) d')"
proof (induction k arbitrary: l v q d cur)
  case 0
  let ?n = "nnodes G"
  note rnd = iso_round [OF uni dep [rule_format] "0.prems"(1-4)]
  from "0.prems"(5) have e: "b = False" "d' = d" "cur' = cur" by simp_all
  have "\<not> any_lt ?n (apply_cutoff co (vxm_min_plus_exact ?n cur (offdiag G))) d"
  proof
    assume "any_lt ?n (apply_cutoff co (vxm_min_plus_exact ?n cur (offdiag G))) d"
    then obtain j x y where j: "vxm_min_plus_exact ?n cur (offdiag G) j = Some x" "within co x"
      "d j = Some y" "x < y" by (auto simp: any_lt_iff apply_cutoff_Some)
    then have "bf_round_exact co ?n (offdiag G) d cur j = Some x" by (simp add: bf_round_Some)
    with rnd have "bfs_frontier ?n (adj G) q v j" by (auto split: if_splits)
    then have "v j = None" by (simp add: bfs_frontier_iff)
    with j(3) "0.prems"(1) show False by (simp add: scale_exact_def)
  qed
  with e "0.prems"(1) show ?case by simp
next
  case (Suc k)
  let ?n = "nnodes G"
  let ?q' = "bfs_frontier ?n (adj G) q v"
  let ?F = "bf_round_exact co ?n (offdiag G) d cur"
  note rnd = iso_round [OF uni dep [rule_format] Suc.prems(1-4)]
  show ?case
  proof (cases "beyond_depth depth (Suc l)")
    case True
    with rnd have "?F = (\<lambda>j. None)" by simp
    then have "nvals ?n ?F = 0" by (simp add: nvals_0)
    with Suc.prems(5) True Suc.prems(1) show ?thesis by (auto simp: Let_def)
  next
    case False
    with rnd have F: "?F = (\<lambda>j. if ?q' j then Some (int (Suc l) * w) else None)" by simp
    have emp: "nvals ?n ?F = 0 \<longleftrightarrow> \<not> list_ex ?q' [0..<?n]"
      unfolding F by (auto simp: nvals_0 list_ex_iff)
    show ?thesis
    proof (cases "nvals ?n ?F = 0")
      case True
      with Suc.prems(5) Suc.prems(1) False emp show ?thesis by (auto simp: Let_def)
    next
      case ne: False
      let ?v' = "\<lambda>j. if ?q' j then Some (int (Suc l)) else v j"
      have d1: "assign_struct d ?F = scale_exact w ?v'"
        unfolding F by (rule ext) (simp add: assign_struct_def scale_exact_def Suc.prems(1))
      have q1: "\<forall>j. ?q' j \<longrightarrow> ?v' j = Some (int (Suc l))" by simp
      have v1: "\<forall>j x. ?v' j = Some x \<longrightarrow> x \<le> int (Suc l)"
        using Suc.prems(4) by (auto split: if_splits) force
      from Suc.prems(5) ne have "bf_loop_exact co ?n (offdiag G) k (assign_struct d ?F) ?F = (b, d', cur')"
        by (simp add: Let_def)
      from Suc.IH [OF d1 F q1 v1 this]
      have ih1: "d' = scale_exact w (bfs_loop ?n (adj G) depth k (Suc (Suc l)) ?v' ?q')"
        and ih2: "\<not> b \<longrightarrow> \<not> any_lt ?n (apply_cutoff co (vxm_min_plus_exact ?n cur' (offdiag G))) d'"
        by blast+
      have "bfs_loop ?n (adj G) depth (Suc k) (Suc l) v q =
          bfs_loop ?n (adj G) depth k (Suc (Suc l)) ?v' ?q'"
        using False ne emp by (simp add: Let_def)
      with ih1 have "d' = scale_exact w (bfs_loop ?n (adj G) depth (Suc k) (Suc l) v q)" by simp
      with ih2 show ?thesis by blast
    qed
  qed
qed

lemma div_less_iff_int:
  assumes "0 < (w::int)"
  shows "c div w < k \<longleftrightarrow> c < k * w"
proof
  have dm: "c div w * w + c mod w = c" by (rule div_mult_mod_eq)
  have mb: "c mod w < w" "0 \<le> c mod w" using assms by simp_all
  {
    assume "c div w < k"
    then have "c div w + 1 \<le> k" by simp
    then have "(c div w + 1) * w \<le> k * w" using assms by (simp add: mult_right_mono)
    moreover have "(c div w + 1) * w = c div w * w + w" by (simp add: algebra_simps)
    ultimately show "c < k * w" using dm mb by linarith
  }
  {
    assume "c < k * w"
    with dm mb have "c div w * w < k * w" by linarith
    then show "c div w < k" using assms by (simp add: mult_less_cancel_right_pos)
  }
qed

lemma depth_cutoff_None: "beyond_depth None i \<longleftrightarrow> \<not> within None x"
  by (simp add: beyond_depth_def within_def)

lemma depth_cutoff_Some:
  "0 < w \<Longrightarrow> beyond_depth (Some (c div w)) i \<longleftrightarrow> \<not> within (Some c) (int i * w)"
  by (simp add: beyond_depth_def within_def div_less_iff_int not_le)

lemma scale_one: "scale_exact 1 d = d"
  by (rule ext) (simp add: scale_exact_def option.map_ident)

lemma general_iso:
  assumes uni: "\<forall>i j x. adj G i j = Some x \<longrightarrow> x = w \<and> 0 \<le> w"
    and dep: "\<forall>l. beyond_depth depth (Suc l) \<longleftrightarrow> \<not> within co (int (Suc l) * w)"
  shows "single_source_general_exact G s co = Inr (scale_exact w (bfs_level G s depth))"
proof -
  let ?n = "nnodes G"
  let ?d0 = "\<lambda>j. if j = s then Some (0::int) else None"
  obtain b d cur where loop: "bf_loop_exact co ?n (offdiag G) (?n - 1) ?d0 ?d0 = (b, d, cur)"
    using prod_cases3 by blast
  have 1: "?d0 = scale_exact w ?d0" by (rule ext) (simp add: scale_exact_def)
  have 2: "?d0 = (\<lambda>j. if (\<lambda>j. j = s) j then Some (int 0 * w) else None)"
    by (rule ext) simp
  have 3: "\<forall>j. (\<lambda>j. j = s) j \<longrightarrow> ?d0 j = Some (int 0)" by simp
  have 4: "\<forall>j x. ?d0 j = Some x \<longrightarrow> x \<le> int 0" by simp
  note sim = iso_simulation [OF uni dep 1 2 3 4 loop]
  from sim have d: "d = scale_exact w (bfs_level G s depth)"
    by (simp add: bfs_level_def bfs_level_on_def)
  from sim have na: "\<not> b \<longrightarrow> \<not> any_lt ?n (apply_cutoff co (vxm_min_plus_exact ?n cur (offdiag G))) d"
    by blast
  have "\<not> has_negative_diagonal G"
    using uni by (fastforce simp: has_negative_diagonal_iff)
  with loop d na show ?thesis
    by (auto simp: single_source_general_unfold)
qed

lemma has_negative_edges_plus_iff:
  "has_negative_edges_plus G \<longleftrightarrow>
     (\<exists>i<nnodes G. \<exists>j<nnodes G. \<exists>w. adj G i j = Some w \<and> w < 0)"
proof -
  have "(case adj G i j of Some w \<Rightarrow> w < 0 | None \<Rightarrow> False) \<longleftrightarrow> (\<exists>w. adj G i j = Some w \<and> w < 0)"
    for i j by (cases "adj G i j") auto
  then show ?thesis
    by (simp add: has_negative_edges_plus_def list_ex_iff Bex_def)
qed

lemma iso_uniform:
  assumes wf: "wf_graph G" and iso: "is_iso G" and nn: "\<not> has_negative_edges_plus G"
  shows "\<forall>i j x. adj G i j = Some x \<longrightarrow> x = iso_value G \<and> 0 \<le> iso_value G"
proof (intro allI impI)
  fix i j x assume e: "adj G i j = Some x"
  with wf iso have x: "x = iso_value G" and b: "i < nnodes G" "j < nnodes G"
    by (auto simp: wf_graph_def)
  from nn e b have "0 \<le> x" by (force simp: has_negative_edges_plus_iff)
  with x show "x = iso_value G \<and> 0 \<le> iso_value G" by simp
qed

text \<open>On the fast path the result is the one of the general relaxation.\<close>

lemma iso_fast_path:
  assumes wf: "wf_graph G" and s: "s < nnodes G"
    and iso: "is_iso G" and nn: "\<not> has_negative_edges_plus G"
  shows "single_source_exact G s None =
       Inr (scale_exact (iso_value G) (bfs_level G s None))"
    and "single_source_exact G s None = single_source_general_exact G s None"
    and "0 < iso_value G \<Longrightarrow> single_source_exact G s (Some c) =
       Inr (scale_exact (iso_value G) (bfs_level G s (Some (c div iso_value G))))"
    and "0 < iso_value G \<Longrightarrow> single_source_exact G s (Some c) =
       single_source_general_exact G s (Some c)"
proof -
  note uni = iso_uniform [OF wf iso nn]
  show a: "single_source_exact G s None =
       Inr (scale_exact (iso_value G) (bfs_level G s None))"
    using s iso nn by (simp add: single_source_exact_def Let_def scale_one)
  have "single_source_general_exact G s None = Inr (scale_exact (iso_value G) (bfs_level G s None))"
    by (rule general_iso [OF uni]) (simp add: beyond_depth_def within_def)
  with a show "single_source_exact G s None = single_source_general_exact G s None"
    by simp
  assume w: "0 < iso_value G"
  show b: "single_source_exact G s (Some c) =
       Inr (scale_exact (iso_value G) (bfs_level G s (Some (c div iso_value G))))"
    using s iso nn w by (simp add: single_source_exact_def Let_def scale_one)
  have "single_source_general_exact G s (Some c) =
      Inr (scale_exact (iso_value G) (bfs_level G s (Some (c div iso_value G))))"
    by (rule general_iso [OF uni]) (simp add: depth_cutoff_Some [OF w])
  with b show "single_source_exact G s (Some c) = single_source_general_exact G s (Some c)"
    by simp
qed

lemma general_cases:
  "single_source_general_exact G s co = Inl Unbounded \<or> (\<exists>d. single_source_general_exact G s co = Inr d)"
  by (auto simp: single_source_general_unfold split: prod.splits)

lemma general_iff:
  assumes "wf_graph G" "s < nnodes G"
  shows "single_source_general_exact G s None = Inl Unbounded \<longleftrightarrow> neg_cycle_reachable G s"
proof
  assume r: "single_source_general_exact G s None = Inl Unbounded"
  show "neg_cycle_reachable G s"
  proof (rule ccontr)
    assume "\<not> neg_cycle_reachable G s"
    with general_correct [OF assms, of None] r show False
      by (auto simp: neg_cycle_reachable_def)
  qed
next
  assume c: "neg_cycle_reachable G s"
  show "single_source_general_exact G s None = Inl Unbounded"
  proof (rule ccontr)
    assume "single_source_general_exact G s None \<noteq> Inl Unbounded"
    with general_cases [of G s None] obtain d where "single_source_general_exact G s None = Inr d"
      by blast
    from general_no_cycle [OF assms this] c show False
      by (simp add: neg_cycle_reachable_def)
  qed
qed

lemma wf_iso: "wf_graph G \<Longrightarrow> is_iso G \<Longrightarrow> adj G i j = Some x \<Longrightarrow> x = iso_value G"
  unfolding wf_graph_def by blast

lemma wf_sym: "wf_graph G \<Longrightarrow> \<not> directed G \<Longrightarrow> adj G i j = adj G j i"
  unfolding wf_graph_def by blast

lemma iso_negative_value:
  assumes wf: "wf_graph G" and iso: "is_iso G" and neg: "has_negative_edges_plus G"
    and e: "adj G i j = Some x"
  shows "x < 0"
proof -
  from neg obtain i' j' y where y: "adj G i' j' = Some y" "y < 0"
    by (auto simp: has_negative_edges_plus_iff)
  from wf_iso [OF wf iso y(1)] wf_iso [OF wf iso e] y(2) show ?thesis by simp
qed

lemma iso_self_loop_cycle:
  assumes wf: "wf_graph G" and iso: "is_iso G" and neg: "has_negative_edges_plus G"
    and e: "adj G s s \<noteq> None"
  shows "neg_cycle_reachable G s"
proof -
  from e obtain x where x: "adj G s s = Some x" by auto
  from iso_negative_value [OF wf iso neg x] x show ?thesis
    unfolding neg_cycle_reachable_def
    using self_loop_neg_cycle [of "adj G" "[s]" "\<lambda>j. j = s" x] by simp
qed

lemma iso_undirected_cycle:
  assumes wf: "wf_graph G" and iso: "is_iso G" and neg: "has_negative_edges_plus G"
    and und: "\<not> directed G" and e: "list_ex (\<lambda>j. adj G s j \<noteq> None) [0..<nnodes G]"
  shows "neg_cycle_reachable G s"
proof -
  from e obtain j x where x: "adj G s j = Some x" by (auto simp: list_ex_iff)
  with wf_sym [OF wf und, of s j] have y: "adj G j s = Some x" by simp
  from iso_negative_value [OF wf iso neg x] have "x < 0" .
  then have "walk_weight (adj G) [s, j, s] < 0" using x y by simp
  moreover have "is_walk (adj G) [s, j, s]" using x y by simp
  ultimately show ?thesis
    unfolding neg_cycle_reachable_def neg_cycle_from_def
    by (intro exI [of _ "[s]"] exI [of _ "[s, j, s]"]) simp
qed

lemma single_source_raise_iff:
  assumes wf: "wf_graph G" and s: "s < nnodes G"
  shows "single_source_exact G s None = Inl Unbounded \<longleftrightarrow>
     neg_cycle_reachable G s"
proof (cases "is_iso G")
  case False
  then have "single_source_exact G s None = single_source_general_exact G s None"
    using s by (simp add: single_source_exact_def)
  with general_iff [OF wf s] show ?thesis by simp
next
  case iso: True
  show ?thesis
  proof (cases "has_negative_edges_plus G")
    case False
    from iso_fast_path(2) [OF wf s iso False] general_iff [OF wf s] show ?thesis by simp
  next
    case neg: True
    show ?thesis
    proof (cases "adj G s s \<noteq> None")
      case True
      with iso neg s have "single_source_exact G s None = Inl Unbounded"
        by (simp add: single_source_exact_def)
      with iso_self_loop_cycle [OF wf iso neg True] show ?thesis by simp
    next
      case nl: False
      show ?thesis
      proof (cases "\<not> directed G \<and> list_ex (\<lambda>j. adj G s j \<noteq> None) [0..<nnodes G]")
        case True
        with iso neg s nl have "single_source_exact G s None = Inl Unbounded"
          by (simp add: single_source_exact_def)
        with iso_undirected_cycle [OF wf iso neg] True show ?thesis by simp
      next
        case False
        with iso neg s nl
        have "single_source_exact G s None = single_source_general_exact G s None"
          by (auto simp: single_source_exact_def)
        with general_iff [OF wf s] show ?thesis by simp
      qed
    qed
  qed
qed

lemma single_source_correct:
  assumes wf: "wf_graph G" and s: "s < nnodes G" and nn: "\<not> neg_cycle_reachable G s"
    and ok: "co \<noteq> None \<and> is_iso G \<and> \<not> has_negative_edges_plus G \<longrightarrow> 0 < iso_value G"
  shows "\<exists>d. single_source_exact G s co = Inr d \<and>
     (\<forall>v x. d v = Some x \<longleftrightarrow> is_dist (adj G) co s v x) \<and>
     (\<forall>v vs. walk_to (adj G) co s v vs \<longrightarrow> d v \<noteq> None)"
proof -
  have "single_source_exact G s co = single_source_general_exact G s co"
  proof (cases "is_iso G")
    case False
    then show ?thesis using s by (simp add: single_source_exact_def)
  next
    case iso: True
    show ?thesis
    proof (cases "has_negative_edges_plus G")
      case False
      show ?thesis
      proof (cases co)
        case None
        with iso_fast_path(2) [OF wf s iso False] show ?thesis by simp
      next
        case (Some c)
        with ok iso False have "0 < iso_value G" by simp
        from iso_fast_path(4) [OF wf s iso False this] Some show ?thesis by simp
      qed
    next
      case neg: True
      have a: "adj G s s = None"
        using iso_self_loop_cycle [OF wf iso neg] nn by blast
      have b: "directed G \<or> \<not> list_ex (\<lambda>j. adj G s j \<noteq> None) [0..<nnodes G]"
        using iso_undirected_cycle [OF wf iso neg] nn by blast
      from iso neg s a b show ?thesis
        by (auto simp: single_source_exact_def)
    qed
  qed
  with general_correct [OF wf s, of co] nn show ?thesis
    by (simp add: neg_cycle_reachable_def)
qed

lemma wf_triangle: "wf_graph triangle"
  by (auto simp: wf_graph_def triangle_def from_coo_def split: if_splits)

lemma wf_two_cycle: "wf_graph two_cycle"
  by (auto simp: wf_graph_def two_cycle_def from_coo_def split: if_splits)

lemma wf_undirected_neg: "wf_graph undirected_neg"
  by (auto simp: wf_graph_def undirected_neg_def from_coo_def split: if_splits)

lemma entries_Inl: "entries n r = Inl e \<longleftrightarrow> r = Inl e"
  by (cases r) (auto simp: entries_def)

lemma entries_Inr:
  "entries n r = Inr xs \<Longrightarrow> \<exists>d. r = Inr d \<and> (\<forall>i<n. d i = xs ! i)"
  by (cases r) (auto simp: entries_def)

lemma wf_neg_prune: "wf_graph neg_prune"
  by (auto simp: wf_graph_def neg_prune_def from_coo_def split: if_splits)

lemma wf_isolated_loop: "wf_graph isolated_loop"
  by (auto simp: wf_graph_def isolated_loop_def from_coo_def split: if_splits)

lemma no_cycle_is_dist_self:
  assumes "\<not> neg_cycle_reachable G s"
  shows "is_dist (adj G) co s s 0"
proof -
  have "walk_to (adj G) co s s [s]" by (simp add: walk_to_def cwalk_single)
  moreover have "0 \<le> walk_weight (adj G) vs" if "walk_to (adj G) co s s vs" for vs
  proof (rule ccontr)
    assume neg: "\<not> 0 \<le> walk_weight (adj G) vs"
    from that have w: "is_walk (adj G) vs" "hd vs = s" "last vs = s"
      by (auto simp: walk_to_def cwalk_is_walk)
    have "neg_cycle_from (adj G) (\<lambda>j. j = s)"
      unfolding neg_cycle_from_def using w neg
      by (intro exI [of _ "[s]"] exI [of _ vs]) simp
    with assms show False by (simp add: neg_cycle_reachable_def)
  qed
  ultimately show ?thesis unfolding is_dist_def by force
qed

lemma single_source_distances_exact:
  assumes "wf_graph G" and "s < nnodes G" and "\<not> neg_cycle_reachable G s"
    and "co \<noteq> None \<and> is_iso G \<and> \<not> has_negative_edges_plus G \<longrightarrow> 0 < iso_value G"
  shows "\<exists>d. single_source_exact G s co = Inr d \<and> d s = Some 0 \<and>
     (\<forall>v x. d v = Some x \<longleftrightarrow> is_dist (adj G) co s v x) \<and>
     (\<forall>v. d v = None \<longleftrightarrow> (\<forall>vs. \<not> walk_to (adj G) co s v vs))"
proof -
  from single_source_correct [OF assms] obtain d where
    r: "single_source_exact G s co = Inr d"
    and di: "\<And>v x. d v = Some x \<longleftrightarrow> is_dist (adj G) co s v x"
    and wk: "\<And>v vs. walk_to (adj G) co s v vs \<Longrightarrow> d v \<noteq> None" by blast
  have "d s = Some 0" using di no_cycle_is_dist_self [OF assms(3)] by blast
  moreover have "d v = None \<longleftrightarrow> (\<forall>vs. \<not> walk_to (adj G) co s v vs)" for v
  proof
    assume "d v = None"
    with wk show "\<forall>vs. \<not> walk_to (adj G) co s v vs" by blast
  next
    assume nw: "\<forall>vs. \<not> walk_to (adj G) co s v vs"
    show "d v = None"
    proof (cases "d v")
      case (Some x)
      with di have "is_dist (adj G) co s v x" by blast
      with nw show ?thesis by (auto simp: is_dist_def)
    qed simp
  qed
  ultimately show ?thesis using r di by blast
qed

lemma not_raised_no_cycle:
  assumes "wf_graph G" "s < nnodes G"
    and "entries n (single_source_exact G s None) = Inr xs"
  shows "\<not> neg_cycle_reachable G s"
  using single_source_raise_iff [OF assms(1,2)] assms(3) by (auto simp: entries_def)

lemma undirected_edge_cycle:
  assumes wf: "wf_graph G" and und: "\<not> directed G"
    and ps: "is_walk (adj G) ps" "hd ps = s" and e: "adj G (last ps) j = Some w" "w < 0"
  shows "neg_cycle_reachable G s"
proof -
  let ?u = "last ps"
  from wf_sym [OF wf und, of ?u j] e have y: "adj G j ?u = Some w" by simp
  have "is_walk (adj G) [?u, j, ?u]" using e y by simp
  moreover have "walk_weight (adj G) [?u, j, ?u] < 0" using e y by simp
  ultimately show ?thesis
    unfolding neg_cycle_reachable_def neg_cycle_from_def using ps
    by (intro exI [of _ ps] exI [of _ "[?u, j, ?u]"]) simp
qed

lemma single_source_unbounded_iff_exact:
  assumes "wf_graph G" and "s < nnodes G"
  shows "(single_source_exact G s None = Inl Unbounded \<longleftrightarrow>
            neg_cycle_reachable G s) \<and>
     (\<forall>ps w. is_walk (adj G) ps \<and> hd ps = s \<and> adj G (last ps) (last ps) = Some w \<and> w < 0 \<longrightarrow>
        single_source_exact G s None = Inl Unbounded) \<and>
     (\<forall>ps j w. \<not> directed G \<and> is_walk (adj G) ps \<and> hd ps = s \<and>
          adj G (last ps) j = Some w \<and> w < 0 \<longrightarrow>
        single_source_exact G s None = Inl Unbounded) \<and>
     (\<not> neg_cycle_reachable G s \<longrightarrow>
        (\<exists>d. single_source_exact G s None = Inr d \<and>
           (\<forall>v x. d v = Some x \<longleftrightarrow> is_dist (adj G) None s v x)))"
proof -
  note iff = single_source_raise_iff [OF assms]
  have a: "single_source_exact G s None = Inl Unbounded"
    if "is_walk (adj G) ps \<and> hd ps = s \<and> adj G (last ps) (last ps) = Some w \<and> w < 0" for ps w
  proof -
    from that have "neg_cycle_from (adj G) (\<lambda>j. j = s)"
      using self_loop_neg_cycle [of "adj G" ps "\<lambda>j. j = s" w] by simp
    with iff show ?thesis by (simp add: neg_cycle_reachable_def)
  qed
  have b: "single_source_exact G s None = Inl Unbounded"
    if "\<not> directed G \<and> is_walk (adj G) ps \<and> hd ps = s \<and> adj G (last ps) j = Some w \<and> w < 0"
    for ps j w
    using undirected_edge_cycle [OF assms(1), of ps s j w] that iff by simp
  have c: "\<exists>d. single_source_exact G s None = Inr d \<and>
           (\<forall>v x. d v = Some x \<longleftrightarrow> is_dist (adj G) None s v x)"
    if "\<not> neg_cycle_reachable G s"
    using single_source_correct [OF assms that, of None] by auto
  from iff a b c show ?thesis by blast
qed

lemma bf_loop_Suc:
  "bf_loop_exact co n A (Suc r) d cur =
     (case bf_loop_exact co n A r d cur of
        (True, d', c') \<Rightarrow> (True, d', c')
      | (False, d', c') \<Rightarrow>
          (let c'' = bf_round_exact co n A d' c'
           in if nvals n c'' = 0 then (True, d', c'') else (False, assign_struct d' c'', c'')))"
proof (induction r arbitrary: d cur)
  case 0
  show ?case by (simp add: Let_def)
next
  case (Suc r)
  show ?case
  proof (cases "nvals n (bf_round_exact co n A d cur) = 0")
    case True
    then show ?thesis by (simp add: Let_def)
  next
    case False
    then have "bf_loop_exact co n A (Suc (Suc r)) d cur =
        bf_loop_exact co n A (Suc r) (assign_struct d (bf_round_exact co n A d cur)) (bf_round_exact co n A d cur)"
      by (simp add: Let_def)
    also note Suc.IH
    finally show ?thesis using False by (simp add: Let_def)
  qed
qed

lemma dist_after_mono:
  assumes "dist_after_exact G s co r v = Some x"
  shows "\<exists>x'. dist_after_exact G s co (Suc r) v = Some x' \<and> x' \<le> x"
proof -
  let ?d0 = "\<lambda>j. if j = s then Some (0::int) else None"
  obtain b d cur where l: "bf_loop_exact co (nnodes G) (offdiag G) r ?d0 ?d0 = (b, d, cur)"
    using prod_cases3 by blast
  with assms have dv: "d v = Some x" by (simp add: dist_after_exact_def)
  show ?thesis
  proof (cases "b \<or> nvals (nnodes G) (bf_round_exact co (nnodes G) (offdiag G) d cur) = 0")
    case True
    with l have "dist_after_exact G s co (Suc r) = d"
      unfolding dist_after_exact_def bf_loop_Suc by (cases b) (auto simp: Let_def)
    with dv show ?thesis by simp
  next
    case False
    with l have "dist_after_exact G s co (Suc r) =
        assign_struct d (bf_round_exact co (nnodes G) (offdiag G) d cur)"
      unfolding dist_after_exact_def bf_loop_Suc by (cases b) (auto simp: Let_def)
    with bf_step_le [of d v x co "nnodes G" "offdiag G" cur] dv show ?thesis by simp
  qed
qed

lemma dist_after_least:
  assumes s: "s < nnodes G" and dv: "dist_after_exact G s co r v = Some x"
  shows "reach (\<lambda>j. j = s) (offdiag G) co r v x"
    and "reach (\<lambda>j. j = s) (offdiag G) co r v y \<Longrightarrow> x \<le> y"
proof -
  let ?S = "\<lambda>j. j = s"
  let ?d0 = "\<lambda>j. if ?S j then Some (0::int) else None"
  obtain b d cur where l: "bf_loop_exact co (nnodes G) (offdiag G) r ?d0 ?d0 = (b, d, cur)"
    using prod_cases3 by blast
  with dv have d: "d v = Some x" by (simp add: dist_after_exact_def)
  have "bf_inv ?S (offdiag G) co (nnodes G) 0 ?d0 ?d0"
    using s by (intro bf_inv_init) simp
  from bf_loop_inv [OF this bounded_offdiag l] obtain k where
    k: "k \<le> r" "bf_inv ?S (offdiag G) co (nnodes G) k d cur" "b \<longrightarrow> cur = (\<lambda>j. None)"
    "\<not> b \<longrightarrow> k = r"
    by (cases b) auto
  from k(2) d have "reach ?S (offdiag G) co k v x" unfolding bf_inv_def by blast
  then show "reach ?S (offdiag G) co r v x" using k(1) by (rule reach_mono)
  assume y: "reach ?S (offdiag G) co r v y"
  show "x \<le> y"
  proof (cases b)
    case False
    with k y d show ?thesis unfolding bf_inv_def by force
  next
    case True
    with k have cl: "bf_closed (offdiag G) co d" by (simp add: bf_inv_closed)
    from y obtain vs where vs: "cwalk (offdiag G) co vs" "?S (hd vs)" "last vs = v"
      "walk_weight (offdiag G) vs = y" by (auto simp: reach_def)
    from bf_closed_walks [of "offdiag G" co d ?S vs] cl bf_inv_seeds [OF k(2)] vs d
    show ?thesis by auto
  qed
qed

lemma relaxation_invariant_exact:
  assumes "s < nnodes G" and "dist_after_exact G s co r v = Some x"
  shows "reach (\<lambda>j. j = s) (offdiag G) co r v x \<and>
     (\<forall>y. reach (\<lambda>j. j = s) (offdiag G) co r v y \<longrightarrow> x \<le> y) \<and>
     (\<exists>x'. dist_after_exact G s co (Suc r) v = Some x' \<and> x' \<le> x)"
  using dist_after_least [OF assms] dist_after_mono [OF assms(2)] by blast

lemma bfs_loop_struct:
  assumes "\<And>i j. A i j \<noteq> None \<longleftrightarrow> B i j \<noteq> None"
  shows "bfs_loop n A depth k i v q = bfs_loop n B depth k i v q"
proof (induction k arbitrary: i v q)
  case 0
  show ?case by simp
next
  case (Suc k)
  have "(\<exists>y. A i j = Some y) = (\<exists>y. B i j = Some y)" for i j
    using assms [of i j] by simp
  then have "bfs_frontier n A q v = bfs_frontier n B q v"
    by (intro ext) (simp add: bfs_frontier_def)
  with Suc show ?case by (simp add: Let_def)
qed

lemma unit_walk: "is_walk (unit_weights A) vs = is_walk A vs"
  by (induction A vs rule: is_walk.induct) (auto simp: unit_weights_def)

lemma unit_weight: "is_walk A vs \<Longrightarrow> walk_weight (unit_weights A) vs = int (length vs) - 1"
  by (induction A vs rule: is_walk.induct) (auto simp: unit_weights_def)

lemma nonneg_weight:
  shows "\<forall>i j x. A i j = Some x \<longrightarrow> 0 \<le> x \<Longrightarrow> 0 \<le> walk_weight A vs"
proof (induction A vs rule: walk_weight.induct)
  case (1 A u v vs)
  show ?case
  proof (cases "A u v")
    case None
    with 1 show ?thesis by simp
  next
    case (Some a)
    with "1.prems" have "0 \<le> a" by blast
    with 1 Some show ?thesis by simp
  qed
qed simp_all

lemma nonneg_no_cycle:
  assumes "\<forall>i j x. A i j = Some x \<longrightarrow> 0 \<le> x"
  shows "\<not> neg_cycle_from A S"
proof
  assume "neg_cycle_from A S"
  then obtain cs where "walk_weight A cs < 0" by (auto simp: neg_cycle_from_def)
  with nonneg_weight [OF assms, of cs] show False by simp
qed

lemma is_dist_unit: "is_dist (unit_weights A) None s v h \<longleftrightarrow> hops A s v h"
  unfolding is_dist_def hops_def walk_to_def cwalk_None unit_walk
  by (metis unit_weight)

lemma bfs_level_hops:
  assumes wf: "wf_graph G" and s: "s < nnodes G"
  shows "bfs_level G s None v = Some h \<longleftrightarrow> hops (adj G) s v h"
proof -
  let ?G = "G\<lparr>adj := unit_weights (adj G), is_iso := False\<rparr>"
  have wf': "wf_graph ?G"
    using wf unfolding wf_graph_def unit_weights_def by simp
  have uni: "\<forall>i j x. adj ?G i j = Some x \<longrightarrow> x = 1 \<and> 0 \<le> (1::int)"
    by (auto simp: unit_weights_def)
  have dep: "\<forall>l. beyond_depth None (Suc l) \<longleftrightarrow> \<not> within None (int (Suc l) * 1)"
    by (simp add: beyond_depth_def within_def)
  have b: "bfs_level ?G s None = bfs_level G s None"
    unfolding bfs_level_def bfs_level_on_def
    by (simp add: bfs_loop_struct [of "unit_weights (adj G)" "adj G"] unit_weights_def)
  from general_iso [OF uni dep, of s] b
  have g: "single_source_general_exact ?G s None = Inr (bfs_level G s None)" by (simp add: scale_one)
  have "\<not> neg_cycle_from (adj ?G) (\<lambda>j. j = s)"
    by (rule nonneg_no_cycle) (auto simp: unit_weights_def)
  from general_correct [OF wf' _ this, of None] s g
  have "bfs_level G s None v = Some h \<longleftrightarrow> is_dist (unit_weights (adj G)) None s v h"
    by auto
  then show ?thesis by (simp add: is_dist_unit)
qed

lemma wf_chain4: "wf_graph chain4"
  by (auto simp: wf_graph_def chain4_def from_coo_def split: if_splits)

lemma uniform_result:
  assumes wf: "wf_graph G" and s: "s < nnodes G"
    and uni: "\<forall>i j x. adj G i j = Some x \<longrightarrow> x = w" and w: "0 < w"
  shows "single_source_general_exact G s None = Inr (scale_exact w (bfs_level G s None))"
    and "single_source_exact G s None = Inr (scale_exact w (bfs_level G s None))"
proof -
  have uni': "\<forall>i j x. adj G i j = Some x \<longrightarrow> x = w \<and> 0 \<le> w" using uni w by auto
  show g: "single_source_general_exact G s None = Inr (scale_exact w (bfs_level G s None))"
    by (rule general_iso [OF uni']) (simp add: beyond_depth_def within_def)
  show "single_source_exact G s None = Inr (scale_exact w (bfs_level G s None))"
  proof (cases "is_iso G")
    case False
    with s g show ?thesis by (simp add: single_source_exact_def)
  next
    case True
    have "\<not> has_negative_edges_plus G"
      using uni w by (fastforce simp: has_negative_edges_plus_iff)
    from iso_fast_path(2) [OF wf s True this] g show ?thesis by simp
  qed
qed

lemma iso_equals_scaled_bfs_exact:
  assumes "wf_graph G" and "s < nnodes G" and "uniform_weights G w" and "0 < w"
  shows "\<exists>d. single_source_exact G s None = Inr d \<and>
     single_source_general_exact G s None = Inr d \<and>
     d = scale_exact w (bfs_level G s None) \<and>
     (\<forall>v x. d v = Some x \<longleftrightarrow> (\<exists>h. hops (adj G) s v h \<and> x = h * w)) \<and>
     (\<forall>v. d v = None \<longleftrightarrow> \<not> (\<exists>h. hops (adj G) s v h))"
proof -
  let ?d = "scale_exact w (bfs_level G s None)"
  note h = bfs_level_hops [OF assms(1,2)]
  have a: "?d v = Some x \<longleftrightarrow> (\<exists>h. hops (adj G) s v h \<and> x = h * w)" for v x
    using h [of v] by (cases "bfs_level G s None v") (auto simp: scale_exact_def)
  have b: "?d v = None \<longleftrightarrow> \<not> (\<exists>h. hops (adj G) s v h)" for v
    using h [of v] by (cases "bfs_level G s None v") (auto simp: scale_exact_def)
  from uniform_result [OF assms(1,2) assms(3) [unfolded uniform_weights_def] assms(4)] a b
  show ?thesis by blast
qed

lemma bfs_loop_new:
  "v j = None \<Longrightarrow> bfs_loop n A depth k i v q j = Some h \<Longrightarrow> int i \<le> h"
proof (induction k arbitrary: i v q)
  case 0
  then show ?case by simp
next
  case (Suc k)
  let ?q' = "bfs_frontier n A q v"
  let ?v' = "\<lambda>j. if ?q' j then Some (int i) else v j"
  from Suc.prems have r: "bfs_loop n A depth k (Suc i) ?v' ?q' j = Some h"
    by (auto simp: Let_def split: if_splits)
  show ?case
  proof (cases "?q' j")
    case True
    then have "?v' j = Some (int i)" by simp
    with bfs_loop_keeps [of ?v' j "int i" n A depth k "Suc i" ?q'] r show ?thesis by simp
  next
    case False
    with Suc.prems(1) have "?v' j = None" by simp
    from Suc.IH [OF this r] show ?thesis by simp
  qed
qed

text \<open>A depth bound only removes the levels beyond it.\<close>

lemma bfs_loop_depth:
  "bfs_loop n A (Some b) k i v q j =
     (if v j \<noteq> None then v j
      else case bfs_loop n A None k i v q j of
             None \<Rightarrow> None | Some h \<Rightarrow> if h \<le> b then Some h else None)"
proof (induction k arbitrary: i v q)
  case 0
  show ?case by (cases "v j") simp_all
next
  case (Suc k)
  let ?q' = "bfs_frontier n A q v"
  let ?v' = "\<lambda>j. if ?q' j then Some (int i) else v j"
  show ?case
  proof (cases "v j")
    case (Some x)
    from bfs_loop_keeps [of v j x n A _ "Suc k" i q] Some show ?thesis by simp
  next
    case None
    show ?thesis
    proof (cases "b < int i")
      case True
      have "\<not> h \<le> b" if "bfs_loop n A None (Suc k) i v q j = Some h" for h
        using bfs_loop_new [OF None that] True by simp
      with True None show ?thesis
        by (auto simp: beyond_depth_def split: option.splits)
    next
      case nb: False
      show ?thesis
      proof (cases "list_ex ?q' [0..<n]")
        case False
        with nb None show ?thesis by (simp add: beyond_depth_def Let_def)
      next
        case True
        with nb have l: "bfs_loop n A (Some b) (Suc k) i v q j =
            bfs_loop n A (Some b) k (Suc i) ?v' ?q' j"
          and r: "bfs_loop n A None (Suc k) i v q j = bfs_loop n A None k (Suc i) ?v' ?q' j"
          by (simp_all add: beyond_depth_def Let_def)
        show ?thesis
        proof (cases "?q' j")
          case False
          with None have "?v' j = None" by simp
          with Suc.IH [of "Suc i" ?v' ?q'] l r None show ?thesis by simp
        next
          case q: True
          then have vj: "?v' j = Some (int i)" by simp
          from bfs_loop_keeps [of ?v' j "int i" n A "Some b" k "Suc i" ?q']
            bfs_loop_keeps [of ?v' j "int i" n A None k "Suc i" ?q'] vj l r None nb
          show ?thesis by simp
        qed
      qed
    qed
  qed
qed

lemma bfs_level_depth:
  "bfs_level G s (Some b) v =
     (case bfs_level G s None v of
        None \<Rightarrow> None | Some h \<Rightarrow> if v = s \<or> h \<le> b then Some h else None)"
proof (cases "v = s")
  case True
  have "bfs_level G s depth s = Some 0" for depth
    unfolding bfs_level_def bfs_level_on_def by (rule bfs_loop_keeps) simp
  with True show ?thesis by simp
next
  case False
  then show ?thesis
    unfolding bfs_level_def bfs_level_on_def
    by (subst bfs_loop_depth) (simp split: option.splits)
qed

lemma le_div_iff_int:
  assumes "0 < (w::int)"
  shows "h \<le> c div w \<longleftrightarrow> h * w \<le> c"
  using div_less_iff_int [OF assms, of c h] by linarith

lemma iso_cutoff_levels_exact:
  assumes "s < nnodes G" and "is_iso G" and "\<not> has_negative_edges_plus G"
    and "0 < iso_value G"
  shows "\<exists>d. single_source_exact G s (Some c) = Inr d \<and>
     d = scale_exact (iso_value G) (bfs_level G s (Some (c div iso_value G))) \<and>
     (\<forall>v. d v = (case bfs_level G s None v of
                   None \<Rightarrow> None
                 | Some h \<Rightarrow> if v = s \<or> h * iso_value G \<le> c then Some (h * iso_value G)
                             else None))"
proof -
  let ?w = "iso_value G"
  let ?d = "scale_exact ?w (bfs_level G s (Some (c div ?w)))"
  have "single_source_exact G s (Some c) = Inr ?d"
    using assms by (simp add: single_source_exact_def Let_def scale_one)
  moreover have "?d v = (case bfs_level G s None v of
                   None \<Rightarrow> None
                 | Some h \<Rightarrow> if v = s \<or> h * ?w \<le> c then Some (h * ?w) else None)" for v
    by (simp add: scale_exact_def bfs_level_depth le_div_iff_int [OF assms(4)] split: option.splits)
  ultimately show ?thesis by blast
qed

lemma nonneg_prefix:
  assumes nn: "\<forall>i j x. A i j = Some x \<longrightarrow> 0 \<le> x"
  shows "walk_weight A ps \<le> walk_weight A (ps @ ss)"
proof (cases "ps = []")
  case True
  with nonneg_weight [OF nn, of ss] show ?thesis by simp
next
  case False
  then obtain ps' p where ps: "ps = ps' @ [p]" by (cases ps rule: rev_cases) auto
  have "walk_weight A (ps @ ss) = walk_weight A (ps' @ [p]) + walk_weight A (p # ss)"
    using walk_weight_append [of A ps' p ss] ps by simp
  with nonneg_weight [OF nn, of "p # ss"] ps show ?thesis by simp
qed

lemma nonneg_cwalk:
  assumes nn: "\<forall>i j x. A i j = Some x \<longrightarrow> 0 \<le> x"
  shows "cwalk A (Some c) vs \<longleftrightarrow> is_walk A vs \<and> (2 \<le> length vs \<longrightarrow> walk_weight A vs \<le> c)"
proof
  assume cw: "cwalk A (Some c) vs"
  then have "2 \<le> length vs \<longrightarrow> within (Some c) (walk_weight A vs)"
    unfolding cwalk_prefixes by (metis append_Nil2)
  with cw show "is_walk A vs \<and> (2 \<le> length vs \<longrightarrow> walk_weight A vs \<le> c)"
    by (simp add: cwalk_is_walk within_def)
next
  assume a: "is_walk A vs \<and> (2 \<le> length vs \<longrightarrow> walk_weight A vs \<le> c)"
  have "within (Some c) (walk_weight A ps)" if "vs = ps @ ss" "2 \<le> length ps" for ps ss
  proof -
    from that a have "walk_weight A vs \<le> c" by simp
    with nonneg_prefix [OF nn, of ps ss] that(1) show ?thesis by (simp add: within_def)
  qed
  with a show "cwalk A (Some c) vs" by (auto simp: cwalk_prefixes)
qed

lemma nonneg_is_dist_cutoff:
  assumes nn: "\<forall>i j x. A i j = Some x \<longrightarrow> 0 \<le> x" and c: "0 \<le> c"
  shows "is_dist A (Some c) s v x \<longleftrightarrow> is_dist A None s v x \<and> x \<le> c"
proof -
  have cw: "cwalk A (Some c) vs \<longleftrightarrow> is_walk A vs \<and> walk_weight A vs \<le> c" for vs
  proof (cases "2 \<le> length vs")
    case True
    then show ?thesis by (simp add: nonneg_cwalk [OF nn])
  next
    case False
    then have "vs = [] \<or> (\<exists>u. vs = [u])" by (cases vs) (auto simp: Suc_le_eq)
    then have "walk_weight A vs = 0" by auto
    with False c show ?thesis by (simp add: nonneg_cwalk [OF nn])
  qed
  show ?thesis
  proof
    assume d: "is_dist A (Some c) s v x"
    then obtain vs where vs: "is_walk A vs" "hd vs = s" "last vs = v" "walk_weight A vs = x"
      "x \<le> c" by (auto simp: is_dist_def walk_to_def cw)
    have "x \<le> walk_weight A us" if "is_walk A us" "hd us = s" "last us = v" for us
    proof (cases "walk_weight A us \<le> c")
      case True
      with that d show ?thesis by (auto simp: is_dist_def walk_to_def cw)
    next
      case False
      with vs(5) show ?thesis by simp
    qed
    with vs show "is_dist A None s v x \<and> x \<le> c"
      unfolding is_dist_def walk_to_def cwalk_None by blast
  next
    assume "is_dist A None s v x \<and> x \<le> c"
    then show "is_dist A (Some c) s v x"
      unfolding is_dist_def walk_to_def cwalk_None cw by blast
  qed
qed

lemma nonneg_is_dist_mono:
  assumes nn: "\<forall>i j x. A i j = Some x \<longrightarrow> 0 \<le> x" and c: "c1 \<le> c2"
    and d: "is_dist A (Some c1) s v x"
  shows "is_dist A (Some c2) s v x"
proof (cases "0 \<le> c1")
  case True
  with d c nonneg_is_dist_cutoff [OF nn, of c1 s v x] nonneg_is_dist_cutoff [OF nn, of c2 s v x]
  show ?thesis by simp
next
  case False
  from d obtain vs where vs: "cwalk A (Some c1) vs" "hd vs = s" "last vs = v"
    "walk_weight A vs = x" by (auto simp: is_dist_def walk_to_def)
  have "\<not> 2 \<le> length vs"
    using vs(1) False nonneg_weight [OF nn, of vs] by (auto simp: nonneg_cwalk [OF nn])
  moreover have "vs \<noteq> []" using cwalk_is_walk [OF vs(1)] by auto
  ultimately obtain u where "vs = [u]" by (cases vs) (auto simp: Suc_le_eq)
  with vs have e: "v = s" "x = 0" by simp_all
  have "walk_to A (Some c2) s s [s]" by (simp add: walk_to_def cwalk_single)
  then show ?thesis
    unfolding is_dist_def e using nonneg_weight [OF nn] by force
qed

lemma wf_detour: "wf_graph detour"
  by (auto simp: wf_graph_def detour_def from_coo_def split: if_splits)

lemma wrap_id:
  assumes "0 < b" "in_range b x"
  shows "wrap b x = x"
proof -
  obtain c where b: "b = Suc c" using assms(1) by (cases b) auto
  have "0 \<le> x + 2 ^ c" "x + 2 ^ c < 2 ^ Suc c"
    using assms(2) by (simp_all add: in_range_def b)
  then have "(x + 2 ^ c) mod 2 ^ Suc c = x + 2 ^ c" by (rule mod_pos_pos_trivial)
  then show ?thesis by (simp add: wrap_def b)
qed

lemma in_range_abs: "\<bar>x\<bar> < 2 ^ (b - 1) \<Longrightarrow> in_range b x"
  by (simp add: in_range_def abs_less_iff)

lemma opt_plus_eq:
  assumes "0 < b" "\<And>x w. a = Some x \<Longrightarrow> c = Some w \<Longrightarrow> in_range b (x + w)"
  shows "opt_plus b a c = opt_plus_exact a c"
  using assms by (cases a; cases c) (simp_all add: wrap_id)

lemma vxm_eq:
  assumes b: "0 < b"
    and r: "\<And>i x w. i < n \<Longrightarrow> cur i = Some x \<Longrightarrow> A i j = Some w \<Longrightarrow> in_range b (x + w)"
  shows "vxm_min_plus b n cur A j = vxm_min_plus_exact n cur A j"
proof -
  have "foldr (\<lambda>i acc. opt_min (opt_plus b (cur i) (A i j)) acc) [0..<n] None =
      foldr (\<lambda>i acc. opt_min (opt_plus_exact (cur i) (A i j)) acc) [0..<n] None"
  proof (rule foldr_cong)
    fix i acc assume "i \<in> set [0..<n]"
    then have "i < n" by simp
    from opt_plus_eq [OF b, of "cur i" "A i j"] r [OF this]
    show "opt_min (opt_plus b (cur i) (A i j)) acc = opt_min (opt_plus_exact (cur i) (A i j)) acc"
      by simp
  qed simp_all
  then show ?thesis by (simp add: vxm_min_plus_def vxm_min_plus_exact_def)
qed

lemma vxm_eq_bounded:
  assumes "0 < b" "bounded_vec K cur" "bounded_weights W A" "K + W < 2 ^ (b - 1)"
  shows "vxm_min_plus b n cur A = vxm_min_plus_exact n cur A"
proof (rule ext, rule vxm_eq [OF assms(1)])
  fix j i x w assume "cur i = Some x" "A i j = Some w"
  with assms(2,3) have "\<bar>x\<bar> \<le> K" "\<bar>w\<bar> \<le> W"
    by (auto simp: bounded_vec_def bounded_weights_def)
  with assms(4) have "\<bar>x + w\<bar> < 2 ^ (b - 1)" by linarith
  then show "in_range b (x + w)" by (rule in_range_abs)
qed

lemma bf_round_eq:
  assumes "0 < b" "bounded_vec K cur" "bounded_weights W A" "K + W < 2 ^ (b - 1)"
  shows "bf_round b co n A d cur = bf_round_exact co n A d cur"
  by (simp add: bf_round_def bf_round_exact_def vxm_eq_bounded [OF assms])

lemma bounded_vec_mono: "bounded_vec K v \<Longrightarrow> K \<le> K' \<Longrightarrow> bounded_vec K' v"
  unfolding bounded_vec_def by fastforce

lemma bf_round_exact_bounded:
  assumes "bounded_vec K cur" "bounded_weights W A"
  shows "bounded_vec (K + W) (bf_round_exact co n A d cur)"
  unfolding bounded_vec_def
proof (intro allI impI)
  fix j m assume "bf_round_exact co n A d cur j = Some m"
  then have "vxm_min_plus_exact n cur A j = Some m" by (simp add: bf_round_Some)
  from vxm_Some(2) [OF this] obtain i x w where "cur i = Some x" "A i j = Some w" "m = x + w"
    by blast
  with assms show "\<bar>m\<bar> \<le> K + W"
    by (fastforce simp: bounded_vec_def bounded_weights_def)
qed

lemma assign_struct_bounded:
  "bounded_vec K d \<Longrightarrow> bounded_vec K cur \<Longrightarrow> bounded_vec K (assign_struct d cur)"
  unfolding bounded_vec_def assign_struct_def by (auto split: option.splits)

lemma bf_loop_eq:
  assumes b: "0 < b" and W: "bounded_weights W A" "0 \<le> W"
  shows "bounded_vec K d \<Longrightarrow> bounded_vec K cur \<Longrightarrow> K + int r * W < 2 ^ (b - 1) \<Longrightarrow>
     bf_loop b co n A r d cur = bf_loop_exact co n A r d cur \<and>
     bounded_vec (K + int r * W) (fst (snd (bf_loop_exact co n A r d cur))) \<and>
     bounded_vec (K + int r * W) (snd (snd (bf_loop_exact co n A r d cur)))"
proof (induction r arbitrary: K d cur)
  case 0
  then show ?case by simp
next
  case (Suc r)
  let ?c = "bf_round_exact co n A d cur"
  have le: "K + W \<le> K + int (Suc r) * W" using W(2) by (simp add: algebra_simps)
  with Suc.prems(3) have kw: "K + W < 2 ^ (b - 1)" by linarith
  have e: "bf_round b co n A d cur = ?c"
    using bf_round_eq [OF b Suc.prems(2) W(1) kw] .
  have cb: "bounded_vec (K + W) ?c" using bf_round_exact_bounded [OF Suc.prems(2) W(1)] .
  show ?case
  proof (cases "nvals n ?c = 0")
    case True
    have "bounded_vec (K + int (Suc r) * W) d" "bounded_vec (K + int (Suc r) * W) ?c"
      using bounded_vec_mono [OF Suc.prems(1)] bounded_vec_mono [OF cb le] le W(2)
      by (auto simp: algebra_simps)
    with True e show ?thesis by (simp add: Let_def)
  next
    case False
    have d1: "bounded_vec (K + W) (assign_struct d ?c)"
      using assign_struct_bounded [OF bounded_vec_mono [OF Suc.prems(1)] cb] W(2) by simp
    have k: "(K + W) + int r * W < 2 ^ (b - 1)"
      using Suc.prems(3) by (simp add: algebra_simps)
    have eq: "(K + W) + int r * W = K + int (Suc r) * W" by (simp add: algebra_simps)
    from Suc.IH [OF d1 cb k] False e show ?thesis
      by (simp add: Let_def eq)
  qed
qed

lemma fits_offdiag: "fits G W \<Longrightarrow> bounded_weights W (offdiag G)"
  by (auto simp: fits_def bounded_weights_def offdiag_Some)

lemma source_bounded: "bounded_vec 0 (\<lambda>j. if j = s then Some 0 else None)"
  by (simp add: bounded_vec_def)

lemma single_source_general_typed_unfold:
  "single_source_general G s co =
     (case bf_loop (bits G) co (nnodes G) (offdiag G) (nnodes G - 1)
             (\<lambda>j. if j = s then Some 0 else None) (\<lambda>j. if j = s then Some 0 else None) of
        (broke, d, cur) \<Rightarrow>
          if \<not> broke \<and> any_lt (nnodes G)
               (apply_cutoff co (vxm_min_plus (bits G) (nnodes G) cur (offdiag G))) d
          then Inl Unbounded
          else if has_negative_diagonal G \<and>
                  any_pair_dot (nnodes G) d (select_valuelt (diag G) 0)
          then Inl Unbounded
          else Inr d)"
  by (simp add: single_source_general_def Let_def)

lemma single_source_general_eq:
  assumes f: "fits G W" and n: "0 < nnodes G"
  shows "single_source_general G s co = single_source_general_exact G s co"
proof -
  let ?n = "nnodes G" and ?b = "bits G" and ?A = "offdiag G"
  let ?d0 = "\<lambda>j. if j = s then Some (0::int) else None"
  from f have b: "0 < ?b" and W: "0 \<le> W" and nW: "int ?n * W < 2 ^ (?b - 1)"
    by (simp_all add: fits_def)
  note Wb = fits_offdiag [OF f]
  have nn: "int (?n - 1) * W + W = int ?n * W"
    using n by (simp add: algebra_simps of_nat_diff)
  then have k: "0 + int (?n - 1) * W < 2 ^ (?b - 1)" using nW W by linarith
  from bf_loop_eq [OF b Wb W source_bounded source_bounded k, of co ?n]
  have l: "bf_loop ?b co ?n ?A (?n - 1) ?d0 ?d0 = bf_loop_exact co ?n ?A (?n - 1) ?d0 ?d0"
    and cb: "bounded_vec (int (?n - 1) * W) (snd (snd (bf_loop_exact co ?n ?A (?n - 1) ?d0 ?d0)))"
    by simp_all
  obtain br d cur where r: "bf_loop_exact co ?n ?A (?n - 1) ?d0 ?d0 = (br, d, cur)"
    using prod_cases3 by blast
  with cb have "bounded_vec (int (?n - 1) * W) cur" by simp
  from vxm_eq_bounded [OF b this Wb] nn nW
  have "vxm_min_plus ?b ?n cur ?A = vxm_min_plus_exact ?n cur ?A" by simp
  with l r show ?thesis
    by (simp add: single_source_general_typed_unfold single_source_general_unfold)
qed

lemma bfs_loop_bound:
  "\<forall>j x. v j = Some x \<longrightarrow> 0 \<le> x \<and> x < int i + int k \<Longrightarrow>
     bfs_loop n A depth k i v q j = Some h \<Longrightarrow> 0 \<le> h \<and> h < int i + int k"
proof (induction k arbitrary: i v q)
  case 0
  then show ?case by simp
next
  case (Suc k)
  let ?q' = "bfs_frontier n A q v"
  let ?v' = "\<lambda>j. if ?q' j then Some (int i) else v j"
  show ?case
  proof (cases "beyond_depth depth i \<or> \<not> list_ex ?q' [0..<n]")
    case True
    have "bfs_loop n A depth (Suc k) i v q = v"
      using True by (cases "beyond_depth depth i") (simp_all add: Let_def)
    with Suc.prems(2) have "v j = Some h" by simp
    with Suc.prems(1) show ?thesis by blast
  next
    case False
    then have "bfs_loop n A depth (Suc k) i v q = bfs_loop n A depth k (Suc i) ?v' ?q'"
      by (simp add: Let_def)
    with Suc.prems(2) have r: "bfs_loop n A depth k (Suc i) ?v' ?q' j = Some h"
      by simp
    have "\<forall>j x. ?v' j = Some x \<longrightarrow> 0 \<le> x \<and> x < int (Suc i) + int k"
    proof (intro allI impI)
      fix j x assume a: "?v' j = Some x"
      show "0 \<le> x \<and> x < int (Suc i) + int k"
      proof (cases "?q' j")
        case True
        with a show ?thesis by simp
      next
        case False
        with a have "v j = Some x" by simp
        with Suc.prems(1) have "0 \<le> x \<and> x < int i + int (Suc k)" by blast
        then show ?thesis by simp
      qed
    qed
    from Suc.IH [OF this r] show ?thesis by simp
  qed
qed

lemma bfs_level_bound:
  assumes "0 < nnodes G" "bfs_level G s depth j = Some h"
  shows "0 \<le> h \<and> h < int (nnodes G)"
proof -
  have "\<forall>j x. (if j = s then Some (0::int) else None) = Some x \<longrightarrow>
      0 \<le> x \<and> x < int 1 + int (nnodes G - 1)" by auto
  from bfs_loop_bound [OF this, of "nnodes G" "adj G" depth "\<lambda>j. j = s" j h] assms
  show ?thesis by (simp add: bfs_level_def bfs_level_on_def of_nat_diff)
qed

lemma fast_path_eq:
  assumes f: "fits G W" and n: "0 < nnodes G" and iso: "is_iso G"
  shows "bfs_level_dtype (bits G) G s depth = bfs_level G s depth"
    and "scale (bits G) (iso_value G) (bfs_level_dtype (bits G) G s depth) =
       scale_exact (iso_value G) (bfs_level G s depth)"
proof -
  let ?b = "bits G"
  from f iso have b: "0 < ?b" and W: "1 \<le> W" and w: "\<bar>iso_value G\<bar> \<le> W"
    and nW: "int (nnodes G) * W < 2 ^ (?b - 1)" by (simp_all add: fits_def)
  have lev: "in_range ?b h \<and> in_range ?b (h * iso_value G)"
    if "bfs_level G s depth j = Some h" for j h
  proof -
    from bfs_level_bound [OF n that] have h: "0 \<le> h" "h < int (nnodes G)" by simp_all
    have "h * 1 \<le> int (nnodes G) * W" using h W by (intro mult_mono) simp_all
    with nW have "\<bar>h\<bar> < 2 ^ (?b - 1)" using h(1) by simp
    moreover have "\<bar>h * iso_value G\<bar> \<le> int (nnodes G) * W"
      unfolding abs_mult using h w by (intro mult_mono) simp_all
    with nW have "\<bar>h * iso_value G\<bar> < 2 ^ (?b - 1)" by linarith
    ultimately show ?thesis by (simp add: in_range_abs)
  qed
  show 1: "bfs_level_dtype ?b G s depth = bfs_level G s depth"
  proof
    fix j
    show "bfs_level_dtype ?b G s depth j = bfs_level G s depth j"
      using lev [of j] by (cases "bfs_level G s depth j") (simp_all add: bfs_level_dtype_def wrap_id [OF b])
  qed
  show "scale ?b (iso_value G) (bfs_level_dtype ?b G s depth) =
       scale_exact (iso_value G) (bfs_level G s depth)"
  proof
    fix j
    show "scale ?b (iso_value G) (bfs_level_dtype ?b G s depth) j =
       scale_exact (iso_value G) (bfs_level G s depth) j"
      unfolding 1 using lev [of j]
      by (cases "bfs_level G s depth j") (simp_all add: scale_def scale_exact_def wrap_id [OF b])
  qed
qed

text \<open>When the weights fit, the code computes what the exact relaxation computes.\<close>

lemma single_source_exact_eq:
  assumes f: "fits G W"
  shows "single_source_bellman_ford_path_length G s co = single_source_exact G s co"
proof (cases "s < nnodes G")
  case False
  then show ?thesis
    by (simp add: single_source_bellman_ford_path_length_def single_source_exact_def)
next
  case True
  then have n: "0 < nnodes G" by simp
  note g = single_source_general_eq [OF f n, of s co]
  show ?thesis
  proof (cases "is_iso G")
    case False
    with g show ?thesis
      by (simp add: single_source_bellman_ford_path_length_def single_source_exact_def)
  next
    case iso: True
    note e1 = fast_path_eq(1) [OF f n iso]
    note e2 = fast_path_eq(2) [OF f n iso, unfolded e1]
    show ?thesis
      by (simp only: single_source_bellman_ford_path_length_def single_source_exact_def
          Let_def e1 e2 g)
  qed
qed

lemma dist_after_eq:
  assumes f: "fits G W" and r: "r \<le> nnodes G"
  shows "dist_after G s co r = dist_after_exact G s co r"
proof -
  from f have b: "0 < bits G" and W: "0 \<le> W" and nW: "int (nnodes G) * W < 2 ^ (bits G - 1)"
    by (simp_all add: fits_def)
  have "int r * W \<le> int (nnodes G) * W" using r W by (intro mult_right_mono) simp_all
  with nW have k: "0 + int r * W < 2 ^ (bits G - 1)" by simp
  from bf_loop_eq [OF b fits_offdiag [OF f] W source_bounded source_bounded k, of co "nnodes G"]
  show ?thesis by (simp add: dist_after_def dist_after_exact_def)
qed

lemma single_source_unbounded_cycle:
  assumes wf: "wf_graph G" and s: "s < nnodes G"
    and r: "single_source_exact G s co = Inl Unbounded"
  shows "neg_cycle_reachable G s"
proof (rule ccontr)
  assume nc: "\<not> neg_cycle_reachable G s"
  have g: "single_source_general_exact G s co \<noteq> Inl Unbounded"
    using general_correct [OF wf s, of co] nc by (auto simp: neg_cycle_reachable_def)
  show False
  proof (cases "is_iso G \<and> \<not> has_negative_edges_plus G")
    case True
    with r s show False
      by (cases co) (simp_all add: single_source_exact_def Let_def split: if_splits)
  next
    case False
    show False
    proof (cases "is_iso G")
      case iso: True
      with False have neg: "has_negative_edges_plus G" by simp
      have a: "adj G s s = None"
        using iso_self_loop_cycle [OF wf iso neg] nc by blast
      have b: "directed G \<or> \<not> list_ex (\<lambda>j. adj G s j \<noteq> None) [0..<nnodes G]"
        using iso_undirected_cycle [OF wf iso neg] nc by blast
      from iso neg s a b have "single_source_exact G s co = single_source_general_exact G s co"
        by (auto simp: single_source_exact_def)
      with r g show False by simp
    next
      case False
      with s have "single_source_exact G s co = single_source_general_exact G s co"
        by (simp add: single_source_exact_def)
      with r g show False by simp
    qed
  qed
qed

lemma wf_int8_chain: "wf_graph int8_chain"
  by (auto simp: wf_graph_def int8_chain_def from_coo_def split: if_splits)

lemma wf_int8_iso: "wf_graph int8_iso"
  by (auto simp: wf_graph_def int8_iso_def from_coo_def split: if_splits)

lemma fits_triangle: "fits triangle 1"
  by (auto simp: fits_def triangle_def from_coo_def split: if_splits)

lemma fits_two_cycle: "fits two_cycle 3"
  by (auto simp: fits_def two_cycle_def from_coo_def split: if_splits)

lemma fits_isolated_loop: "fits isolated_loop 1"
  by (auto simp: fits_def isolated_loop_def from_coo_def split: if_splits)

lemma fits_undirected_neg: "fits undirected_neg 1"
  by (auto simp: fits_def undirected_neg_def from_coo_def split: if_splits)

lemma fits_neg_prune: "fits neg_prune 5"
  by (auto simp: fits_def neg_prune_def from_coo_def split: if_splits)

lemma fits_chain4: "fits chain4 2"
  by (auto simp: fits_def chain4_def from_coo_def split: if_splits)

lemma fits_detour: "fits detour 5"
  by (auto simp: fits_def detour_def from_coo_def split: if_splits)

section \<open>Single-source distances\<close>

text \<open>C1 (as the code has it): on a graph whose matrix has a signed integer dtype wide
  enough for the weights (node count times the largest absolute weight is below
  \<open>2 ^ (bits - 1)\<close>), for a source from which no negative cycle is reachable and a
  cutoff that is a value of the dtype, the call returns a vector in which the source
  maps to 0, the entry of a node is the least weight of a walk from the source to it
  (among the walks whose prefixes all stay within the cutoff, when one is given), and a
  node without such a walk has no entry. Without a cutoff this is the shortest path
  length.\<close>

theorem single_source_distances:
  assumes "wf_graph G" and "s < nnodes G" and "\<not> neg_cycle_reachable G s"
    and "fits G W" and "cutoff_in_range G co" and "fast_path_defined G co"
  shows "\<exists>d. single_source_bellman_ford_path_length G s co = Inr d \<and> d s = Some 0 \<and>
     (\<forall>v x. d v = Some x \<longleftrightarrow> is_dist (adj G) co s v x) \<and>
     (\<forall>v. d v = None \<longleftrightarrow> (\<forall>vs. \<not> walk_to (adj G) co s v vs))"
  using single_source_distances_exact [OF assms(1-3) assms(6) [unfolded fast_path_defined_def]]
  unfolding single_source_exact_eq [OF assms(4)] .

theorem single_source_distances_witness:
  "wf_graph triangle \<and> (0::nat) < nnodes triangle \<and> \<not> neg_cycle_reachable triangle 0 \<and>
   fits triangle 1 \<and> cutoff_in_range triangle None \<and> fast_path_defined triangle None \<and>
   entries 3 (single_source_bellman_ford_path_length triangle 0 None) =
     Inr [Some 0, Some 1, Some 2] \<and>
   is_dist (adj triangle) None 0 2 2"
proof -
  have n: "(0::nat) < nnodes triangle" by (simp add: triangle_def)
  have e: "entries 3 (single_source_bellman_ford_path_length triangle 0 None) =
     Inr [Some 0, Some 1, Some 2]" by code_simp
  then have "entries 3 (single_source_exact triangle 0 None) = Inr [Some 0, Some 1, Some 2]"
    by (simp add: single_source_exact_eq [OF fits_triangle])
  from not_raised_no_cycle [OF wf_triangle n this]
  have nc: "\<not> neg_cycle_reachable triangle 0" .
  have c: "cutoff_in_range triangle None" "fast_path_defined triangle None"
    by (simp_all add: cutoff_in_range_def fast_path_defined_def)
  from single_source_distances [OF wf_triangle n nc fits_triangle c] obtain d where
    "single_source_bellman_ford_path_length triangle 0 None = Inr d"
    "\<forall>v x. d v = Some x \<longleftrightarrow> is_dist (adj triangle) None 0 v x" by auto
  moreover from this(1) entries_Inr [OF e] have "d 2 = Some 2" by auto
  ultimately have "is_dist (adj triangle) None 0 2 2" by blast
  with wf_triangle n e nc fits_triangle c show ?thesis by blast
qed

text \<open>C1 fails as stated when a cutoff meets a negative edge: in the graph
  \<open>0\<rightarrow>1:5, 1\<rightarrow>2:-4\<close> (64-bit weights) no negative cycle exists and node 2 is at
  distance 1 from node 0, within the cutoff 2, but the frontier entry 5 of node 1 is
  dropped in the first round and node 2 gets no entry.\<close>

theorem cutoff_drops_node_counterexample:
  "wf_graph neg_prune \<and> \<not> neg_cycle_reachable neg_prune 0 \<and>
   is_dist (adj neg_prune) None 0 2 1 \<and> (1::int) \<le> 2 \<and>
   entries 3 (single_source_bellman_ford_path_length neg_prune 0 (Some 2)) =
     Inr [Some 0, None, None]"
proof -
  have n: "(0::nat) < nnodes neg_prune" by (simp add: neg_prune_def)
  have "entries 3 (single_source_bellman_ford_path_length neg_prune 0 None) =
     Inr [Some 0, Some 5, Some 1]" by code_simp
  then have e: "entries 3 (single_source_exact neg_prune 0 None) =
     Inr [Some 0, Some 5, Some 1]"
    by (simp add: single_source_exact_eq [OF fits_neg_prune])
  have nc: "\<not> neg_cycle_reachable neg_prune 0"
    using not_raised_no_cycle [OF wf_neg_prune n e] .
  from single_source_correct [OF wf_neg_prune n nc, of None] obtain d where
    "single_source_exact neg_prune 0 None = Inr d"
    "\<forall>v x. d v = Some x \<longleftrightarrow> is_dist (adj neg_prune) None 0 v x" by auto
  moreover from this(1) entries_Inr [OF e] have "d 2 = Some 1" by auto
  ultimately have "is_dist (adj neg_prune) None 0 2 1" by blast
  moreover have "entries 3 (single_source_bellman_ford_path_length neg_prune 0 (Some 2)) =
     Inr [Some 0, None, None]" by code_simp
  ultimately show ?thesis using wf_neg_prune nc by simp
qed

section \<open>Negative cycles\<close>

text \<open>C2 (as the code has it): on a graph whose signed integer dtype is wide enough for
  the weights, a call without a cutoff raises \<open>Unbounded\<close> exactly when a negative
  cycle is reachable from the source; a call with a cutoff raises it only when one is
  reachable. Without a cutoff the call raises when the source reaches a node with a
  negative self-loop, and when the graph is undirected and the source reaches a
  negative edge; when no negative cycle is reachable it returns the distances.\<close>

theorem single_source_unbounded_iff:
  assumes "wf_graph G" and "s < nnodes G" and "fits G W"
  shows "(single_source_bellman_ford_path_length G s None = Inl Unbounded \<longleftrightarrow>
            neg_cycle_reachable G s) \<and>
     (\<forall>co. cutoff_in_range G co \<and>
           single_source_bellman_ford_path_length G s co = Inl Unbounded \<longrightarrow>
        neg_cycle_reachable G s) \<and>
     (\<forall>ps w. is_walk (adj G) ps \<and> hd ps = s \<and> adj G (last ps) (last ps) = Some w \<and> w < 0 \<longrightarrow>
        single_source_bellman_ford_path_length G s None = Inl Unbounded) \<and>
     (\<forall>ps j w. \<not> directed G \<and> is_walk (adj G) ps \<and> hd ps = s \<and>
           adj G (last ps) j = Some w \<and> w < 0 \<longrightarrow>
        single_source_bellman_ford_path_length G s None = Inl Unbounded) \<and>
     (\<not> neg_cycle_reachable G s \<longrightarrow>
        (\<exists>d. single_source_bellman_ford_path_length G s None = Inr d \<and>
           (\<forall>v x. d v = Some x \<longleftrightarrow> is_dist (adj G) None s v x)))"
proof -
  note e = single_source_exact_eq [OF assms(3)]
  from single_source_unbounded_iff_exact [OF assms(1,2)]
    single_source_unbounded_cycle [OF assms(1,2)]
  show ?thesis unfolding e by blast
qed

theorem single_source_unbounded_iff_witness:
  "wf_graph two_cycle \<and> (0::nat) < nnodes two_cycle \<and> fits two_cycle 3 \<and>
   neg_cycle_reachable two_cycle 0 \<and>
   single_source_bellman_ford_path_length two_cycle 0 None = Inl Unbounded \<and>
   wf_graph isolated_loop \<and> (0::nat) < nnodes isolated_loop \<and> fits isolated_loop 1 \<and>
   \<not> neg_cycle_reachable isolated_loop 0 \<and>
   entries 3 (single_source_bellman_ford_path_length isolated_loop 0 None) =
     Inr [Some 0, Some 1, None] \<and>
   single_source_bellman_ford_path_length isolated_loop 2 None = Inl Unbounded \<and>
   wf_graph undirected_neg \<and> \<not> directed undirected_neg \<and> fits undirected_neg 1 \<and>
   single_source_bellman_ford_path_length undirected_neg 0 None = Inl Unbounded"
proof -
  have n1: "(0::nat) < nnodes two_cycle" by (simp add: two_cycle_def)
  have c1: "neg_cycle_reachable two_cycle 0"
    unfolding neg_cycle_reachable_def neg_cycle_from_def
    by (intro exI [of _ "[0]"] exI [of _ "[0, 1, 0]"]) (simp add: two_cycle_def from_coo_def)
  have r1: "single_source_bellman_ford_path_length two_cycle 0 None = Inl Unbounded"
    using single_source_unbounded_iff [OF wf_two_cycle n1 fits_two_cycle] c1 by blast
  have n2: "(0::nat) < nnodes isolated_loop" "(2::nat) < nnodes isolated_loop"
    by (simp_all add: isolated_loop_def)
  have e2: "entries 3 (single_source_bellman_ford_path_length isolated_loop 0 None) =
     Inr [Some 0, Some 1, None]" by code_simp
  have c2: "\<not> neg_cycle_reachable isolated_loop 0"
    using single_source_unbounded_iff [OF wf_isolated_loop n2(1) fits_isolated_loop] e2
    by (auto simp: entries_def)
  have "is_walk (adj isolated_loop) [2] \<and> hd [2::nat] = 2 \<and>
      adj isolated_loop (last [2]) (last [2]) = Some (- 1) \<and> (- 1 :: int) < 0"
    by (simp add: isolated_loop_def from_coo_def)
  with single_source_unbounded_iff [OF wf_isolated_loop n2(2) fits_isolated_loop]
  have r2: "single_source_bellman_ford_path_length isolated_loop 2 None = Inl Unbounded"
    by blast
  have n3: "(0::nat) < nnodes undirected_neg" and u3: "\<not> directed undirected_neg"
    by (simp_all add: undirected_neg_def)
  have "\<not> directed undirected_neg \<and> is_walk (adj undirected_neg) [0] \<and> hd [0::nat] = 0 \<and>
      adj undirected_neg (last [0]) 1 = Some (- 1) \<and> (- 1 :: int) < 0"
    by (simp add: undirected_neg_def from_coo_def)
  with single_source_unbounded_iff [OF wf_undirected_neg n3 fits_undirected_neg]
  have r3: "single_source_bellman_ford_path_length undirected_neg 0 None = Inl Unbounded"
    by blast
  from wf_two_cycle n1 c1 r1 wf_isolated_loop n2(1) c2 e2 r2 wf_undirected_neg u3 r3
    fits_two_cycle fits_isolated_loop fits_undirected_neg
  show ?thesis by blast
qed

text \<open>C2 fails as stated when a cutoff is given: in the directed 2-cycle
  \<open>0\<rightarrow>1:1, 1\<rightarrow>0:-3\<close> a negative cycle runs through the source 0, but under the cutoff 0
  the only frontier entry of the first round (node 1, at 1) is dropped, the loop ends by
  its \<open>break\<close>, the check after the loop is skipped, and the call returns \<open>{0: 0}\<close>.\<close>

theorem cutoff_hides_cycle_counterexample:
  "wf_graph two_cycle \<and> neg_cycle_reachable two_cycle 0 \<and>
   entries 2 (single_source_bellman_ford_path_length two_cycle 0 (Some 0)) =
     Inr [Some 0, None]"
proof -
  have c1: "neg_cycle_reachable two_cycle 0"
    unfolding neg_cycle_reachable_def neg_cycle_from_def
    by (intro exI [of _ "[0]"] exI [of _ "[0, 1, 0]"]) (simp add: two_cycle_def from_coo_def)
  have "entries 2 (single_source_bellman_ford_path_length two_cycle 0 (Some 0)) =
     Inr [Some 0, None]" by code_simp
  with wf_two_cycle c1 show ?thesis by simp
qed

lemma reach_nonneg:
  assumes "\<forall>i j x. A i j = Some x \<longrightarrow> 0 \<le> x" and "reach S A co k v x"
  shows "0 \<le> x"
  using assms(2) nonneg_weight [OF assms(1)] unfolding reach_def by blast

lemma fits_dist_after:
  assumes "fits G W" and "r < nnodes G"
  shows "dist_after G s co r = dist_after_exact G s co r"
    and "dist_after G s co (Suc r) = dist_after_exact G s co (Suc r)"
  using dist_after_eq [OF assms(1), of r s co] dist_after_eq [OF assms(1), of "Suc r" s co]
    assms(2) by simp_all

section \<open>The relaxation invariant\<close>

text \<open>C8 (as the code has it): on a graph whose signed integer dtype is wide enough for
  the weights, the distance vector after \<open>r\<close> rounds (\<open>r\<close> below the node count), at a
  node where it has an entry: the entry is the weight of a walk from the source with at
  most \<open>r\<close> edges that respects the cutoff, no such walk is lighter, and after the next
  round the node still has an entry, which is not larger.\<close>

theorem relaxation_invariant:
  assumes "s < nnodes G" and "fits G W" and "r < nnodes G"
    and "dist_after G s co r v = Some x"
  shows "reach (\<lambda>j. j = s) (offdiag G) co r v x \<and>
     (\<forall>y. reach (\<lambda>j. j = s) (offdiag G) co r v y \<longrightarrow> x \<le> y) \<and>
     (\<exists>x'. dist_after G s co (Suc r) v = Some x' \<and> x' \<le> x)"
  using relaxation_invariant_exact [OF assms(1), of co r v x] assms(4)
  unfolding fits_dist_after [OF assms(2,3)] by blast

theorem relaxation_invariant_witness:
  "(0::nat) < nnodes triangle \<and> fits triangle 1 \<and> (1::nat) < nnodes triangle \<and>
   dist_after triangle 0 None 1 1 = Some 1 \<and>
   reach (\<lambda>j. j = 0) (offdiag triangle) None 1 1 1 \<and>
   dist_after triangle 0 None 2 1 = Some 1"
proof -
  have n: "(0::nat) < nnodes triangle" "(1::nat) < nnodes triangle"
    by (simp_all add: triangle_def)
  have d1: "dist_after triangle 0 None 1 1 = Some 1" by code_simp
  have d2: "dist_after triangle 0 None 2 1 = Some 1" by code_simp
  from relaxation_invariant [OF n(1) fits_triangle n(2) d1] n d1 d2 fits_triangle
  show ?thesis by simp
qed

text \<open>C8 fails as stated when a sum leaves the dtype: with 8-bit weights and the chain
  \<open>0\<rightarrow>1:100, 1\<rightarrow>2:101\<close> the entry of node 2 after two rounds is \<open>100 + 101\<close> wrapped
  around, -55, which is the length of no path (no weight is negative).\<close>

theorem narrow_dtype_counterexample:
  "(0::nat) < nnodes int8_chain \<and> (2::nat) < nnodes int8_chain \<and> nonneg_weights int8_chain \<and>
   dist_after int8_chain 0 None 2 2 = Some (- 55) \<and>
   \<not> reach (\<lambda>j. j = 0) (offdiag int8_chain) None 2 2 (- 55)"
proof -
  have n: "(0::nat) < nnodes int8_chain" "(2::nat) < nnodes int8_chain"
    by (simp_all add: int8_chain_def)
  have nn: "nonneg_weights int8_chain"
    by (auto simp: nonneg_weights_def int8_chain_def from_coo_def split: if_splits)
  then have "\<forall>i j x. offdiag int8_chain i j = Some x \<longrightarrow> 0 \<le> x"
    by (auto simp: nonneg_weights_def offdiag_Some)
  from reach_nonneg [OF this, of "\<lambda>j. j = 0" None 2 2 "- 55"]
  have r: "\<not> reach (\<lambda>j. j = 0) (offdiag int8_chain) None 2 2 (- 55)" by auto
  have d: "dist_after int8_chain 0 None 2 2 = Some (- 55)" by code_simp
  from n nn d r show ?thesis by simp
qed

lemma no_edge_walk:
  assumes "\<forall>i j. A i j = None" and "is_walk A vs"
  shows "length vs = 1"
proof (cases vs)
  case Nil
  with assms(2) show ?thesis by simp
next
  case (Cons u us)
  with assms show ?thesis by (cases us) simp_all
qed

lemma no_edge_level:
  assumes wf: "wf_graph G" and s: "s < nnodes G" and e: "\<forall>i j. adj G i j = None"
    and l: "bfs_level G s None v = Some h"
  shows "h = 0"
proof -
  from bfs_level_hops [OF wf s, of v h] l have "hops (adj G) s v h" by simp
  then obtain vs where "is_walk (adj G) vs" "int (length vs) - 1 = h"
    unfolding hops_def by blast
  with no_edge_walk [OF e this(1)] show ?thesis by simp
qed

lemma scaled_levels_eq:
  assumes wf: "wf_graph G" and s: "s < nnodes G" and f: "fits G W"
    and uni: "uniform_weights G w"
  shows "scale (bits G) w (bfs_level_dtype (bits G) G s None) =
     scale_exact w (bfs_level G s None)"
proof
  fix j
  let ?b = "bits G"
  from f have b: "0 < ?b" and W: "1 \<le> W"
    and nW: "int (nnodes G) * W < 2 ^ (?b - 1)" by (simp_all add: fits_def)
  from s have n: "0 < nnodes G" by simp
  show "scale ?b w (bfs_level_dtype ?b G s None) j = scale_exact w (bfs_level G s None) j"
  proof (cases "bfs_level G s None j")
    case None
    then show ?thesis by (simp add: scale_def scale_exact_def bfs_level_dtype_def)
  next
    case (Some h)
    from bfs_level_bound [OF n Some] have h: "0 \<le> h" "h < int (nnodes G)" by simp_all
    have "h * 1 \<le> int (nnodes G) * W" using h W by (intro mult_mono) simp_all
    with nW have "\<bar>h\<bar> < 2 ^ (?b - 1)" using h(1) by simp
    then have 1: "wrap ?b h = h" by (simp add: wrap_id [OF b] in_range_abs)
    have "\<bar>h * w\<bar> < 2 ^ (?b - 1)"
    proof (cases "\<forall>i j. adj G i j = None")
      case True
      from no_edge_level [OF wf s True Some] show ?thesis by simp
    next
      case False
      then obtain i k x where "adj G i k = Some x" by auto
      with uni f have "\<bar>w\<bar> \<le> W" by (auto simp: uniform_weights_def fits_def)
      then have "\<bar>h * w\<bar> \<le> int (nnodes G) * W"
        unfolding abs_mult using h by (intro mult_mono) simp_all
      with nW show ?thesis by linarith
    qed
    then have 2: "wrap ?b (h * w) = h * w" by (simp add: wrap_id [OF b] in_range_abs)
    from Some 1 2 show ?thesis by (simp add: scale_def scale_exact_def bfs_level_dtype_def)
  qed
qed

section \<open>The fast path on uniform weights\<close>

text \<open>C4 (as the code has it; the Level-BFS engine is modelled from the spec): on a graph
  whose edges all carry the same positive weight \<open>w\<close> and whose signed integer dtype is
  wide enough for the weights, the call without a cutoff and the general relaxation
  return the same vector, the levels of the breadth-first search multiplied by \<open>w\<close>: a
  node that the source reaches maps to its hop count times \<open>w\<close>, a node that it does
  not reach has no entry.\<close>

theorem iso_equals_scaled_bfs:
  assumes "wf_graph G" and "s < nnodes G" and "uniform_weights G w" and "0 < w"
    and "fits G W"
  shows "\<exists>d. single_source_bellman_ford_path_length G s None = Inr d \<and>
     single_source_general G s None = Inr d \<and>
     d = scale (bits G) w (bfs_level_dtype (bits G) G s None) \<and>
     (\<forall>v x. d v = Some x \<longleftrightarrow> (\<exists>h. hops (adj G) s v h \<and> x = h * w)) \<and>
     (\<forall>v. d v = None \<longleftrightarrow> \<not> (\<exists>h. hops (adj G) s v h))"
proof -
  from assms(2) have n: "0 < nnodes G" by simp
  show ?thesis
    using iso_equals_scaled_bfs_exact [OF assms(1-4)]
    unfolding single_source_exact_eq [OF assms(5), symmetric]
      single_source_general_eq [OF assms(5) n, symmetric]
      scaled_levels_eq [OF assms(1,2,5,3), symmetric] .
qed

theorem iso_equals_scaled_bfs_witness:
  "wf_graph chain4 \<and> (0::nat) < nnodes chain4 \<and>
   uniform_weights chain4 2 \<and> (0::int) < 2 \<and> fits chain4 2 \<and>
   entries 4 (single_source_bellman_ford_path_length chain4 0 None) =
     Inr [Some 0, Some 2, Some 4, Some 6] \<and>
   entries 4 (single_source_general chain4 0 None) = Inr [Some 0, Some 2, Some 4, Some 6] \<and>
   hops (adj chain4) 0 3 3"
proof -
  have n: "(0::nat) < nnodes chain4" by (simp add: chain4_def)
  have u: "uniform_weights chain4 2"
    by (auto simp: uniform_weights_def chain4_def from_coo_def split: if_splits)
  have e: "entries 4 (single_source_bellman_ford_path_length chain4 0 None) =
     Inr [Some 0, Some 2, Some 4, Some 6]" by code_simp
  have g: "entries 4 (single_source_general chain4 0 None) =
     Inr [Some 0, Some 2, Some 4, Some 6]" by code_simp
  from iso_equals_scaled_bfs [OF wf_chain4 n u _ fits_chain4] obtain d where
    d: "single_source_bellman_ford_path_length chain4 0 None = Inr d"
    "\<forall>v x. d v = Some x \<longleftrightarrow> (\<exists>h. hops (adj chain4) 0 v h \<and> x = h * 2)" by auto
  from d(1) entries_Inr [OF e] have "d 3 = Some 6" by auto
  with d(2) have "hops (adj chain4) 0 3 3" by auto
  with wf_chain4 n u e g fits_chain4 show ?thesis by simp
qed

text \<open>C4 fails as stated when the product leaves the dtype: with 8-bit weights and the
  chain \<open>0\<rightarrow>1:100, 1\<rightarrow>2:100\<close> node 2 is two hops from node 0, and its entry is
  \<open>2 * 100\<close> wrapped around, -56.\<close>

theorem narrow_dtype_product_counterexample:
  "wf_graph int8_iso \<and> (0::nat) < nnodes int8_iso \<and> uniform_weights int8_iso 100 \<and>
   (0::int) < 100 \<and> hops (adj int8_iso) 0 2 2 \<and>
   entries 3 (single_source_bellman_ford_path_length int8_iso 0 None) =
     Inr [Some 0, Some 100, Some (- 56)] \<and> (- 56 :: int) \<noteq> 2 * 100"
proof -
  have n: "(0::nat) < nnodes int8_iso" by (simp add: int8_iso_def)
  have u: "uniform_weights int8_iso 100"
    by (auto simp: uniform_weights_def int8_iso_def from_coo_def split: if_splits)
  have "bfs_level int8_iso 0 None 2 = Some 2" by code_simp
  with bfs_level_hops [OF wf_int8_iso n, of 2 2] have h: "hops (adj int8_iso) 0 2 2" by simp
  have e: "entries 3 (single_source_bellman_ford_path_length int8_iso 0 None) =
     Inr [Some 0, Some 100, Some (- 56)]" by code_simp
  from wf_int8_iso n u h e show ?thesis by simp
qed

lemma cwalk_cutoff_mono:
  assumes "cwalk A (Some c1) vs" and "c1 \<le> c2"
  shows "cwalk A (Some c2) vs"
  using assms unfolding cwalk_iff within_def by fastforce

lemma walk_to_cutoff_mono:
  "walk_to A (Some c1) s v vs \<Longrightarrow> c1 \<le> c2 \<Longrightarrow> walk_to A (Some c2) s v vs"
  unfolding walk_to_def using cwalk_cutoff_mono by blast

lemma nonneg_is_dist_negative:
  assumes nn: "\<forall>i j x. A i j = Some x \<longrightarrow> 0 \<le> x" and c: "c < 0"
  shows "is_dist A (Some c) s v x \<longleftrightarrow> v = s \<and> x = 0"
proof -
  have w: "walk_to A (Some c) s v vs \<longleftrightarrow> v = s \<and> vs = [s]" for v vs
  proof
    assume a: "walk_to A (Some c) s v vs"
    then have cw: "cwalk A (Some c) vs" and hd: "hd vs = s" and l: "last vs = v"
      by (simp_all add: walk_to_def)
    from cw nonneg_cwalk [OF nn, of c vs] nonneg_weight [OF nn, of vs] c
    have "is_walk A vs" "\<not> 2 \<le> length vs" by auto
    then obtain u where "vs = [u]"
      by (cases vs) (auto simp: not_le Suc_le_eq)
    with hd l show "v = s \<and> vs = [s]" by simp
  next
    assume "v = s \<and> vs = [s]"
    then show "walk_to A (Some c) s v vs" by (simp add: walk_to_def cwalk_single)
  qed
  show ?thesis unfolding is_dist_def w by auto
qed

lemma cutoff_subset_exact:
  assumes wf: "wf_graph G" and s: "s < nnodes G" and nc: "\<not> neg_cycle_reachable G s"
    and ok: "is_iso G \<and> \<not> has_negative_edges_plus G \<longrightarrow> 0 < iso_value G"
  shows "\<exists>d. single_source_exact G s (Some c) = Inr d \<and>
      (\<forall>v x. d v = Some x \<longleftrightarrow> is_dist (adj G) (Some c) s v x) \<and>
      (\<forall>v vs. walk_to (adj G) (Some c) s v vs \<longrightarrow> d v \<noteq> None)"
  using single_source_correct [OF wf s nc, of "Some c"] ok by simp

section \<open>Cutoffs\<close>

text \<open>C6 (as the code has it): on a graph whose signed integer dtype is wide enough for
  the weights, for a source from which no negative cycle is reachable and cutoffs
  \<open>c1 < c2\<close> that are values of the dtype (the shared value positive on the fast path),
  both calls return, and every node with an entry under \<open>c1\<close> has an entry under \<open>c2\<close>
  that is not larger. When no edge weight is negative the two entries are equal; a
  cutoff that is not negative reports exactly the nodes whose shortest path length is at
  most the cutoff, each with that length; a negative cutoff reports the source alone,
  with 0.\<close>

theorem cutoff_monotone:
  assumes "wf_graph G" and "s < nnodes G" and "fits G W"
    and "\<not> neg_cycle_reachable G s"
    and "cutoff_in_range G (Some c1)" and "cutoff_in_range G (Some c2)"
    and "fast_path_defined G (Some c1)" and "c1 < c2"
  shows "\<exists>d1 d2. single_source_bellman_ford_path_length G s (Some c1) = Inr d1 \<and>
     single_source_bellman_ford_path_length G s (Some c2) = Inr d2 \<and>
     (\<forall>v x. d1 v = Some x \<longrightarrow> (\<exists>y. d2 v = Some y \<and> y \<le> x)) \<and>
     (nonneg_weights G \<longrightarrow>
        (\<forall>v x. d1 v = Some x \<longrightarrow> d2 v = Some x) \<and>
        (\<forall>v x. d1 v = Some x \<longleftrightarrow>
           (if 0 \<le> c1 then is_dist (adj G) None s v x \<and> x \<le> c1 else v = s \<and> x = 0)) \<and>
        (\<forall>v x. d2 v = Some x \<longleftrightarrow>
           (if 0 \<le> c2 then is_dist (adj G) None s v x \<and> x \<le> c2 else v = s \<and> x = 0)))"
proof -
  note e = single_source_exact_eq [OF assms(3)]
  from assms(7) have ok: "is_iso G \<and> \<not> has_negative_edges_plus G \<longrightarrow> 0 < iso_value G"
    by (simp add: fast_path_defined_def)
  from cutoff_subset_exact [OF assms(1,2,4) ok, of c1] obtain d1 where
    d1: "single_source_bellman_ford_path_length G s (Some c1) = Inr d1"
    "\<And>v x. d1 v = Some x \<longleftrightarrow> is_dist (adj G) (Some c1) s v x"
    unfolding e by blast
  from cutoff_subset_exact [OF assms(1,2,4) ok, of c2] obtain d2 where
    d2: "single_source_bellman_ford_path_length G s (Some c2) = Inr d2"
    "\<And>v x. d2 v = Some x \<longleftrightarrow> is_dist (adj G) (Some c2) s v x"
    "\<And>v vs. walk_to (adj G) (Some c2) s v vs \<Longrightarrow> d2 v \<noteq> None"
    unfolding e by blast
  have sub: "\<exists>y. d2 v = Some y \<and> y \<le> x" if "d1 v = Some x" for v x
  proof -
    from that d1(2) have "is_dist (adj G) (Some c1) s v x" by simp
    then obtain vs where vs: "walk_to (adj G) (Some c1) s v vs" "walk_weight (adj G) vs = x"
      unfolding is_dist_def by blast
    from walk_to_cutoff_mono [OF vs(1), of c2] assms(8)
    have w2: "walk_to (adj G) (Some c2) s v vs" by simp
    from d2(3) [OF w2] obtain y where y: "d2 v = Some y" by auto
    with d2(2) have "is_dist (adj G) (Some c2) s v y" by simp
    with w2 vs(2) have "y \<le> x" unfolding is_dist_def by blast
    with y show ?thesis by simp
  qed
  have nonneg: "(\<forall>v x. d1 v = Some x \<longrightarrow> d2 v = Some x) \<and>
        (\<forall>v x. d1 v = Some x \<longleftrightarrow>
           (if 0 \<le> c1 then is_dist (adj G) None s v x \<and> x \<le> c1 else v = s \<and> x = 0)) \<and>
        (\<forall>v x. d2 v = Some x \<longleftrightarrow>
           (if 0 \<le> c2 then is_dist (adj G) None s v x \<and> x \<le> c2 else v = s \<and> x = 0))"
    if "nonneg_weights G"
  proof -
    note nn = that [unfolded nonneg_weights_def]
    have m: "d2 v = Some x" if "d1 v = Some x" for v x
      using nonneg_is_dist_mono [OF nn, of c1 c2 s v x] assms(8) that d1(2) d2(2) by simp
    have c: "is_dist (adj G) (Some c) s v x \<longleftrightarrow>
        (if 0 \<le> c then is_dist (adj G) None s v x \<and> x \<le> c else v = s \<and> x = 0)" for c v x
      using nonneg_is_dist_cutoff [OF nn, of c s v x] nonneg_is_dist_negative [OF nn, of c s v x]
      by simp
    from m c show ?thesis unfolding d1(2) d2(2) by blast
  qed
  from d1(1) d2(1) sub nonneg show ?thesis by blast
qed

theorem cutoff_monotone_witness:
  "wf_graph triangle \<and> (0::nat) < nnodes triangle \<and> fits triangle 1 \<and>
   \<not> neg_cycle_reachable triangle 0 \<and> nonneg_weights triangle \<and>
   cutoff_in_range triangle (Some (- 1)) \<and> cutoff_in_range triangle (Some 1) \<and>
   fast_path_defined triangle (Some (- 1)) \<and> (- 1 :: int) < 1 \<and>
   entries 3 (single_source_bellman_ford_path_length triangle 0 (Some (- 1))) =
     Inr [Some 0, None, None] \<and>
   entries 3 (single_source_bellman_ford_path_length triangle 0 (Some 1)) =
     Inr [Some 0, Some 1, None] \<and>
   is_dist (adj triangle) None 0 1 1"
proof -
  have n: "(0::nat) < nnodes triangle" by (simp add: triangle_def)
  have nn: "nonneg_weights triangle"
    by (auto simp: nonneg_weights_def triangle_def from_coo_def split: if_splits)
  have nc: "\<not> neg_cycle_reachable triangle 0"
    unfolding neg_cycle_reachable_def
    by (rule nonneg_no_cycle [OF nn [unfolded nonneg_weights_def]])
  have r: "cutoff_in_range triangle (Some (- 1))" "cutoff_in_range triangle (Some 1)"
    by (simp_all add: cutoff_in_range_def in_range_def triangle_def)
  have fp: "fast_path_defined triangle (Some (- 1))"
    by (simp add: fast_path_defined_def triangle_def)
  have e1: "entries 3 (single_source_bellman_ford_path_length triangle 0 (Some (- 1))) =
     Inr [Some 0, None, None]" by code_simp
  have e2: "entries 3 (single_source_bellman_ford_path_length triangle 0 (Some 1)) =
     Inr [Some 0, Some 1, None]" by code_simp
  from cutoff_monotone [OF wf_triangle n fits_triangle nc r fp] nn obtain d2 where
    d2: "single_source_bellman_ford_path_length triangle 0 (Some 1) = Inr d2"
    "\<forall>v x. d2 v = Some x \<longleftrightarrow> is_dist (adj triangle) None 0 v x \<and> x \<le> 1" by auto
  from d2(1) entries_Inr [OF e2] have "d2 1 = Some 1" by auto
  with d2(2) have "is_dist (adj triangle) None 0 1 1" by blast
  with wf_triangle n fits_triangle nc nn r fp e1 e2 show ?thesis by simp
qed

text \<open>C6 fails as stated when an edge is negative: under the cutoff 2 node 2 is reached
  by the direct edge only, at distance 2; under the cutoff 5 the detour through node 1
  is found as well and the distance is 1.\<close>

theorem cutoff_values_differ_counterexample:
  "wf_graph detour \<and> (2::int) < 5 \<and>
   entries 3 (single_source_bellman_ford_path_length detour 0 (Some 2)) =
     Inr [Some 0, None, Some 2] \<and>
   entries 3 (single_source_bellman_ford_path_length detour 0 (Some 5)) =
     Inr [Some 0, Some 5, Some 1]"
proof -
  have "entries 3 (single_source_bellman_ford_path_length detour 0 (Some 2)) =
     Inr [Some 0, None, Some 2]" by code_simp
  moreover have "entries 3 (single_source_bellman_ford_path_length detour 0 (Some 5)) =
     Inr [Some 0, Some 5, Some 1]" by code_simp
  ultimately show ?thesis using wf_detour by simp
qed

lemma bfs_level_source: "bfs_level G s depth s = Some 0"
  unfolding bfs_level_def bfs_level_on_def by (rule bfs_loop_keeps) simp

section \<open>The cutoff on the fast path\<close>

text \<open>On a signed integer dtype the floor division is exact: with a positive shared
  value \<open>w\<close> and a cutoff \<open>c\<close> of the dtype, the fast path reports the source and the
  nodes whose level \<open>h\<close> satisfies \<open>h * w \<le> c\<close>, each with \<open>h * w\<close>; no product
  leaves the dtype, because it is bounded by the cutoff. (The Level-BFS engine is
  modelled from the spec.)\<close>

lemma iso_cutoff_levels:
  assumes s: "s < nnodes G" and iso: "is_iso G" and nn: "\<not> has_negative_edges_plus G"
    and w: "0 < iso_value G" and b: "0 < bits G" and c: "in_range (bits G) c"
  shows "\<exists>d. single_source_bellman_ford_path_length G s (Some c) = Inr d \<and>
     d = scale (bits G) (iso_value G)
           (bfs_level_dtype (bits G) G s (Some (c div iso_value G))) \<and>
     (\<forall>v. d v = (case bfs_level G s None v of
                   None \<Rightarrow> None
                 | Some h \<Rightarrow> if v = s \<or> h * iso_value G \<le> c then Some (h * iso_value G)
                             else None))"
proof -
  let ?w = "iso_value G" and ?b = "bits G"
  let ?l = "bfs_level G s (Some (c div ?w))"
  let ?d = "scale ?b ?w (bfs_level_dtype ?b G s (Some (c div ?w)))"
  from s have n: "0 < nnodes G" by simp
  have r: "in_range ?b h \<and> in_range ?b (h * ?w)" if l: "?l v = Some h" for v h
  proof (cases "v = s")
    case True
    with l bfs_level_source [of G s "Some (c div ?w)"] have "h = 0" by simp
    then show ?thesis by (simp add: in_range_def)
  next
    case False
    from bfs_level_bound [OF n l] have h: "0 \<le> h" by simp
    from l False have "h \<le> c div ?w"
      by (auto simp: bfs_level_depth split: option.splits if_splits)
    then have hc: "h * ?w \<le> c" by (simp add: le_div_iff_int [OF w])
    have "h * 1 \<le> h * ?w" using h w by (intro mult_left_mono) simp_all
    with hc h c w show ?thesis by (auto simp: in_range_def)
  qed
  have l: "bfs_level_dtype ?b G s (Some (c div ?w)) = ?l"
  proof
    fix v show "bfs_level_dtype ?b G s (Some (c div ?w)) v = ?l v"
      using r [of v] by (cases "?l v") (simp_all add: bfs_level_dtype_def wrap_id [OF b])
  qed
  have e: "?d = scale_exact ?w ?l"
  proof
    fix v show "?d v = scale_exact ?w ?l v"
      unfolding l using r [of v]
      by (cases "?l v") (simp_all add: scale_def scale_exact_def wrap_id [OF b])
  qed
  have o: "scale ?b 1 ?l = ?l"
  proof
    fix v show "scale ?b 1 ?l v = ?l v"
      using r [of v] by (cases "?l v") (simp_all add: scale_def wrap_id [OF b])
  qed
  have "single_source_bellman_ford_path_length G s (Some c) = Inr ?d"
  proof (cases "?w = 1")
    case True
    have dt: "?d = bfs_level_dtype ?b G s (Some (c div ?w))"
      unfolding l using o True by simp
    have "single_source_bellman_ford_path_length G s (Some c) =
        Inr (bfs_level_dtype ?b G s (Some (c div ?w)))"
      using True s iso nn by (simp add: single_source_bellman_ford_path_length_def Let_def)
    then show ?thesis unfolding dt .
  next
    case False
    with s iso nn w show ?thesis
      by (simp add: single_source_bellman_ford_path_length_def Let_def)
  qed
  moreover have "?d v = (case bfs_level G s None v of
                   None \<Rightarrow> None
                 | Some h \<Rightarrow> if v = s \<or> h * ?w \<le> c then Some (h * ?w) else None)" for v
    unfolding e
    by (simp add: scale_exact_def bfs_level_depth le_div_iff_int [OF w] split: option.splits)
  ultimately show ?thesis by blast
qed

lemma fold_min_keep: "foldr (\<lambda>i acc. acc) xs (a :: int option) = a"
  by (induction xs) simp_all

lemma vxm_of_empty: "vxm_min_plus b n (\<lambda>j. None) A = (\<lambda>j. None)"
  by (rule ext) (simp add: vxm_min_plus_def fold_min_keep)

lemma apply_cutoff_empty: "apply_cutoff co (\<lambda>j. None) = (\<lambda>j. None)"
  by (cases co) (auto simp: apply_cutoff_def select_valuele_def)

lemma bf_round_of_empty: "bf_round b co n A d (\<lambda>j. None) = (\<lambda>j. None)"
  by (rule ext)
    (simp add: bf_round_def Let_def vxm_of_empty apply_cutoff_empty keep_masked_def)

lemma vxm_beyond: "\<not> j < n \<Longrightarrow> vxm_min_plus b n cur A j = None"
  by (simp add: vxm_min_plus_def)

lemma bf_round_beyond: "\<not> j < n \<Longrightarrow> bf_round b co n A d cur j = None"
  by (cases co)
    (simp_all add: bf_round_def Let_def keep_masked_def improve_mask_def apply_cutoff_def
      select_valuele_def vxm_beyond)

lemma bf_round_nvals_0:
  assumes "nvals n (bf_round b co n A d cur) = 0"
  shows "bf_round b co n A d cur = (\<lambda>j. None)"
proof
  fix j
  show "bf_round b co n A d cur j = None"
    using assms bf_round_beyond [of j n b co A d cur] by (cases "j < n") (simp_all add: nvals_0)
qed

lemma bf_loop_of_empty: "bf_loop b co n A k d (\<lambda>j. None) = (k \<noteq> 0, d, \<lambda>j. None)"
  by (cases k) (simp_all add: bf_round_of_empty nvals_0)

lemma mnvals_0: "mnvals m n C = 0 \<longleftrightarrow> (\<forall>r<m. nvals n (C r) = 0)"
  by (auto simp: mnvals_def sum_list_eq_0_iff)

lemma mbf_rows:
  "mbf_loop b m n A k D Cur = (bm, D', Cur') \<Longrightarrow> r < m \<Longrightarrow>
     bf_loop b None n A k (D r) (Cur r) = (br, dr, cr) \<Longrightarrow>
     D' r = dr \<and> (bm \<longrightarrow> br) \<and> (if br then Cur' r = (\<lambda>j. None) else \<not> bm \<and> Cur' r = cr)"
proof (induction k arbitrary: D Cur br dr cr)
  case 0
  then show ?case by auto
next
  case (Suc k)
  let ?C = "\<lambda>r. bf_round b None n A (D r) (Cur r)"
  let ?D = "\<lambda>r. assign_struct (D r) (?C r)"
  show ?case
  proof (cases "mnvals m n ?C = 0")
    case True
    with Suc.prems(1) have m: "bm" "D' = D" "Cur' = ?C" by (auto simp: Let_def)
    from True Suc.prems(2) have z: "nvals n (?C r) = 0" by (simp add: mnvals_0)
    with Suc.prems(3) have "br" "dr = D r" by (auto simp: Let_def)
    with m bf_round_nvals_0 [OF z] show ?thesis by simp
  next
    case False
    with Suc.prems(1) have rec: "mbf_loop b m n A k ?D ?C = (bm, D', Cur')"
      by (simp add: Let_def)
    show ?thesis
    proof (cases "nvals n (?C r) = 0")
      case True
      with Suc.prems(3) have row: "br" "dr = D r" by (auto simp: Let_def)
      have e: "?C r = (\<lambda>j. None)" using True by (rule bf_round_nvals_0)
      then have "?D r = D r" by (simp add: assign_struct_empty)
      with e have "bf_loop b None n A k (?D r) (?C r) = (k \<noteq> 0, D r, \<lambda>j. None)"
        by (simp add: bf_loop_of_empty)
      from Suc.IH [OF rec Suc.prems(2) this] row show ?thesis
        by (auto split: if_splits)
    next
      case False
      with Suc.prems(3) have "bf_loop b None n A k (?D r) (?C r) = (br, dr, cr)"
        by (simp add: Let_def)
      from Suc.IH [OF rec Suc.prems(2) this] show ?thesis .
    qed
  qed
qed

lemma any_lt_empty: "\<not> any_lt n (vxm_min_plus b n (\<lambda>j. None) A) d"
  by (simp add: vxm_of_empty any_lt_iff)

lemma list_ex_upt: "list_ex P [0..<m] \<longleftrightarrow> (\<exists>r<m. P r)"
  by (auto simp: list_ex_iff)

lemma path_lengths_general_rows:
  fixes G ids
  defines "n \<equiv> nnodes G" and "m \<equiv> length ids"
  shows "path_lengths_general G ids ex = Inl Unbounded \<longleftrightarrow>
       (\<exists>r<m. single_source_general G (ids ! r) None = Inl Unbounded)"
    and "path_lengths_general G ids ex = Inr M \<Longrightarrow>
       \<exists>D. (\<forall>r<m. single_source_general G (ids ! r) None = Inr (D r)) \<and>
           M = (if ex \<and> n \<noteq> m then \<lparr>mrows = n, mcols = n, mrow = expand_rows ids D\<rparr>
                else \<lparr>mrows = m, mcols = n, mrow = D\<rparr>)"
proof -
  let ?A = "offdiag G" and ?b = "bits G"
  let ?D0 = "\<lambda>r. if r < m then (\<lambda>j. if j = ids ! r then Some (0::int) else None)
                     else (\<lambda>j. None)"
  obtain bm D Cur where loop: "mbf_loop ?b m n ?A (n - 1) ?D0 ?D0 = (bm, D, Cur)"
    using prod_cases3 by blast
  let ?nd = "select_valuelt (diag G) 0"
  let ?raise_r = "\<lambda>r. (\<not> bm \<and> any_lt n (vxm_min_plus ?b n (Cur r) ?A) (D r)) \<or>
     (has_negative_diagonal G \<and> any_pair_dot n (D r) ?nd)"
  have row: "single_source_general G (ids ! r) None =
      (if ?raise_r r then Inl Unbounded else Inr (D r))" if r: "r < m" for r
  proof -
    let ?d0 = "\<lambda>j. if j = ids ! r then Some (0::int) else None"
    obtain br dr cr where l: "bf_loop ?b None n ?A (n - 1) ?d0 ?d0 = (br, dr, cr)"
      using prod_cases3 by blast
    with r have "bf_loop ?b None n ?A (n - 1) (?D0 r) (?D0 r) = (br, dr, cr)" by simp
    from mbf_rows [OF loop r this]
    have rel: "D r = dr" "if br then Cur r = (\<lambda>j. None) else \<not> bm \<and> Cur r = cr" by simp_all
    have "(\<not> br \<and> any_lt n (vxm_min_plus ?b n cr ?A) dr) \<longleftrightarrow>
        (\<not> bm \<and> any_lt n (vxm_min_plus ?b n (Cur r) ?A) (D r))"
      using rel by (cases br) (auto simp: any_lt_empty)
    with l rel(1) show ?thesis
      by (auto simp: single_source_general_typed_unfold apply_cutoff_def n_def)
  qed
  have mat: "path_lengths_general G ids ex =
      (if \<exists>r<m. ?raise_r r then Inl Unbounded
       else if ex \<and> n \<noteq> m then Inr \<lparr>mrows = n, mcols = n, mrow = expand_rows ids D\<rparr>
       else Inr \<lparr>mrows = m, mcols = n, mrow = D\<rparr>)"
    using loop
    by (auto simp: path_lengths_general_def Let_def n_def m_def list_ex_upt)
  show "path_lengths_general G ids ex = Inl Unbounded \<longleftrightarrow>
       (\<exists>r<m. single_source_general G (ids ! r) None = Inl Unbounded)"
    using mat row by auto
  assume "path_lengths_general G ids ex = Inr M"
  with mat have nr: "\<not> (\<exists>r<m. ?raise_r r)"
    and M: "M = (if ex \<and> n \<noteq> m then \<lparr>mrows = n, mcols = n, mrow = expand_rows ids D\<rparr>
                else \<lparr>mrows = m, mcols = n, mrow = D\<rparr>)"
    by (auto split: if_splits)
  from nr row have "\<forall>r<m. single_source_general G (ids ! r) None = Inr (D r)" by auto
  with M show "\<exists>D. (\<forall>r<m. single_source_general G (ids ! r) None = Inr (D r)) \<and>
           M = (if ex \<and> n \<noteq> m then \<lparr>mrows = n, mcols = n, mrow = expand_rows ids D\<rparr>
                else \<lparr>mrows = m, mcols = n, mrow = D\<rparr>)" by blast
qed

lemma bf_loop_keeps_entry:
  "d j \<noteq> None \<Longrightarrow> fst (snd (bf_loop b co n A k d cur)) j \<noteq> None"
proof (induction k arbitrary: d cur)
  case 0
  then show ?case by simp
next
  case (Suc k)
  let ?c = "bf_round b co n A d cur"
  from Suc.prems have "assign_struct d ?c j \<noteq> None"
    by (simp add: assign_struct_def split: option.splits)
  with Suc.IH [of "assign_struct d ?c" ?c] Suc.prems show ?case by (simp add: Let_def)
qed

lemma general_self_loop:
  assumes s: "s < nnodes G" and e: "adj G s s = Some w" and w: "w < 0"
  shows "single_source_general G s co = Inl Unbounded"
proof -
  let ?d0 = "\<lambda>j. if j = s then Some (0::int) else None"
  obtain br d cur where
    l: "bf_loop (bits G) co (nnodes G) (offdiag G) (nnodes G - 1) ?d0 ?d0 = (br, d, cur)"
    using prod_cases3 by blast
  have "d s \<noteq> None"
    using bf_loop_keeps_entry [of ?d0 s "bits G" co "nnodes G" "offdiag G" "nnodes G - 1" ?d0] l
    by simp
  with s e w have "any_pair_dot (nnodes G) d (select_valuelt (diag G) 0)"
    unfolding neg_diag_iff by blast
  moreover from s e w have "has_negative_diagonal G"
    unfolding has_negative_diagonal_iff by blast
  ultimately show ?thesis using l by (simp add: single_source_general_typed_unfold)
qed

lemma expand_fold_other:
  "i \<notin> (\<lambda>r. ids ! r) ` set rs \<Longrightarrow> foldl (\<lambda>rv r. rv(ids ! r := D r)) f rs i = f i"
  by (induction rs arbitrary: f) auto

lemma expand_fold_row:
  "r \<in> set rs \<Longrightarrow> distinct rs \<Longrightarrow> \<forall>r'\<in>set rs. ids ! r' = ids ! r \<longrightarrow> r' = r \<Longrightarrow>
     foldl (\<lambda>rv r. rv(ids ! r := D r)) f rs (ids ! r) = D r"
proof (induction rs arbitrary: f)
  case Nil
  then show ?case by simp
next
  case (Cons a rs)
  show ?case
  proof (cases "a = r")
    case True
    with Cons.prems have ni: "ids ! r \<notin> (\<lambda>r. ids ! r) ` set rs" by auto
    have "foldl (\<lambda>rv r. rv(ids ! r := D r)) f (a # rs) (ids ! r) =
        foldl (\<lambda>rv r. rv(ids ! r := D r)) (f(ids ! r := D r)) rs (ids ! r)"
      unfolding True foldl.simps ..
    also have "\<dots> = (f(ids ! r := D r)) (ids ! r)"
      by (rule expand_fold_other [OF ni])
    also have "\<dots> = D r" by (rule fun_upd_same)
    finally show ?thesis .
  next
    case False
    with Cons show ?thesis by auto
  qed
qed

lemma expand_rows_row:
  assumes "distinct ids" "r < length ids"
  shows "expand_rows ids D (ids ! r) = D r"
  unfolding expand_rows_def
  using assms by (intro expand_fold_row) (auto simp: nth_eq_iff_index_eq)

lemma expand_rows_other:
  assumes "i \<notin> set ids"
  shows "expand_rows ids D i = (\<lambda>j. None)"
proof -
  have "i \<notin> (\<lambda>r. ids ! r) ` set [0..<length ids]" using assms by auto
  from expand_fold_other [OF this] show ?thesis by (simp add: expand_rows_def)
qed

lemma matrix_rows:
  assumes wf: "wf_graph G" and ids: "list_all (\<lambda>i. i < nnodes G) ns"
  shows "bellman_ford_path_lengths G (Some ns) ex = Inl Unbounded \<longleftrightarrow>
       (\<exists>r<length ns. single_source_bellman_ford_path_length G (ns ! r) None = Inl Unbounded)"
    and "bellman_ford_path_lengths G (Some ns) ex = Inr M \<Longrightarrow>
       \<exists>D. (\<forall>r<length ns. single_source_bellman_ford_path_length G (ns ! r) None = Inr (D r)) \<and>
           M = (if ex \<and> nnodes G \<noteq> length ns
                then \<lparr>mrows = nnodes G, mcols = nnodes G, mrow = expand_rows ns D\<rparr>
                else \<lparr>mrows = length ns, mcols = nnodes G, mrow = D\<rparr>)"
proof -
  let ?n = "nnodes G"
  have b: "ns ! r < ?n" if "r < length ns" for r
    using ids that by (simp add: list_all_length)
  let ?single = "\<lambda>r. single_source_bellman_ford_path_length G (ns ! r) None"
  let ?goal1 = "bellman_ford_path_lengths G (Some ns) ex = Inl Unbounded \<longleftrightarrow>
       (\<exists>r<length ns. ?single r = Inl Unbounded)"
  let ?goal2 = "bellman_ford_path_lengths G (Some ns) ex = Inr M \<longrightarrow>
       (\<exists>D. (\<forall>r<length ns. ?single r = Inr (D r)) \<and>
           M = (if ex \<and> ?n \<noteq> length ns
                then \<lparr>mrows = ?n, mcols = ?n, mrow = expand_rows ns D\<rparr>
                else \<lparr>mrows = length ns, mcols = ?n, mrow = D\<rparr>))"
  have "?goal1 \<and> ?goal2"
  proof (cases "is_iso G \<and> \<not> has_negative_edges_plus G")
    case True
    let ?D = "if iso_value G \<noteq> 1
        then (\<lambda>r. scale (bits G) (iso_value G) (bfs_levels G ns r)) else bfs_levels G ns"
    have m: "bellman_ford_path_lengths G (Some ns) ex =
        (if ex \<and> ?n \<noteq> length ns
         then Inr \<lparr>mrows = ?n, mcols = ?n, mrow = expand_rows ns ?D\<rparr>
         else Inr \<lparr>mrows = length ns, mcols = ?n, mrow = ?D\<rparr>)"
      using True ids by (simp add: bellman_ford_path_lengths_def Let_def)
    have s: "?single r = Inr (?D r)" if "r < length ns" for r
      using True b [OF that] that
      by (simp add: single_source_bellman_ford_path_length_def Let_def bfs_levels_def)
    from m s show ?thesis by auto
  next
    case nf: False
    show ?thesis
    proof (cases "is_iso G \<and> \<not> directed G \<and>
        list_ex (\<lambda>i. list_ex (\<lambda>j. adj G i j \<noteq> None) [0..<?n]) ns")
      case True
      with nf ids have m: "bellman_ford_path_lengths G (Some ns) ex = Inl Unbounded"
        by (simp add: bellman_ford_path_lengths_def Let_def)
      from True have "list_ex (\<lambda>i. list_ex (\<lambda>j. adj G i j \<noteq> None) [0..<?n]) ns"
        by (rule conjunct2 [THEN conjunct2])
      then obtain i where i: "i \<in> set ns" "list_ex (\<lambda>j. adj G i j \<noteq> None) [0..<?n]"
        unfolding list_ex_iff [of _ ns] by blast
      from i(1) obtain r where "r < length ns" "ns ! r = i"
        unfolding in_set_conv_nth by blast
      with i(2) have r: "r < length ns"
        "list_ex (\<lambda>j. adj G (ns ! r) j \<noteq> None) [0..<?n]" by simp_all
      with True nf b [OF r(1)] have "?single r = Inl Unbounded"
        by (simp add: single_source_bellman_ford_path_length_def)
      with m r(1) show ?thesis by auto
    next
      case False
      have "bellman_ford_path_lengths G (Some ns) ex =
          (if is_iso G \<and> \<not> has_negative_edges_plus G then
             (let D0 = bfs_levels G ns;
                  D = (if iso_value G \<noteq> 1
                       then (\<lambda>r. scale (bits G) (iso_value G) (D0 r)) else D0)
              in if Some ns \<noteq> None \<and> ex \<and> ?n \<noteq> length ns
                 then Inr \<lparr>mrows = ?n, mcols = ?n, mrow = expand_rows ns D\<rparr>
                 else Inr \<lparr>mrows = length ns, mcols = ?n, mrow = D\<rparr>)
           else if is_iso G \<and> \<not> directed G \<and>
                 list_ex (\<lambda>i. list_ex (\<lambda>j. adj G i j \<noteq> None) [0..<?n]) ns
           then Inl Unbounded
           else path_lengths_general G ns (Some ns \<noteq> None \<and> ex))"
      proof -
        from ids have "\<not> \<not> list_all (\<lambda>i. i < ?n) ns" by simp
        then show ?thesis
          unfolding bellman_ford_path_lengths_def Let_def option.case by (rule if_not_P)
      qed
      also have "\<dots> = path_lengths_general G ns (Some ns \<noteq> None \<and> ex)"
        unfolding if_not_P [OF nf] if_not_P [OF False] ..
      finally have m: "bellman_ford_path_lengths G (Some ns) ex =
          path_lengths_general G ns ex" by simp
      have s: "?single r = single_source_general G (ns ! r) None" if r: "r < length ns" for r
      proof (cases "is_iso G")
        case False
        with b [OF r] show ?thesis by (simp add: single_source_bellman_ford_path_length_def)
      next
        case iso: True
        with nf have neg: "has_negative_edges_plus G" by simp
        show ?thesis
        proof (cases "adj G (ns ! r) (ns ! r)")
          case (Some w)
          from iso_negative_value [OF wf iso neg Some] have "w < 0" .
          then have "single_source_general G (ns ! r) None = Inl Unbounded"
            using b [OF r] Some by (intro general_self_loop)
          with iso neg b [OF r] Some
          show ?thesis by (simp add: single_source_bellman_ford_path_length_def)
        next
          case nl: None
          have "\<not> (\<not> directed G \<and> list_ex (\<lambda>j. adj G (ns ! r) j \<noteq> None) [0..<?n])"
            using False iso r by (auto simp: list_ex_iff)
          with iso neg nl b [OF r] show ?thesis
            by (auto simp: single_source_bellman_ford_path_length_def)
        qed
      qed
      from path_lengths_general_rows(1) [of G ns ex]
        path_lengths_general_rows(2) [of G ns ex M] m s show ?thesis by auto
    qed
  qed
  then show "bellman_ford_path_lengths G (Some ns) ex = Inl Unbounded \<longleftrightarrow>
       (\<exists>r<length ns. ?single r = Inl Unbounded)"
    and "bellman_ford_path_lengths G (Some ns) ex = Inr M \<Longrightarrow>
       \<exists>D. (\<forall>r<length ns. ?single r = Inr (D r)) \<and>
           M = (if ex \<and> ?n \<noteq> length ns
                then \<lparr>mrows = ?n, mcols = ?n, mrow = expand_rows ns D\<rparr>
                else \<lparr>mrows = length ns, mcols = ?n, mrow = D\<rparr>)"
    by blast+
qed

lemma all_nodes_rows:
  "bellman_ford_path_lengths G None ex =
     bellman_ford_path_lengths G (Some [0..<nnodes G]) False"
  by (simp add: bellman_ford_path_lengths_def Let_def)

lemma mentries_Inr:
  "mentries r = Inr (a, b, rows) \<Longrightarrow>
     \<exists>M. r = Inr M \<and> mrows M = a \<and> mcols M = b \<and> (\<forall>i<a. map (mrow M i) [0..<b] = rows ! i)"
  by (cases r) (auto simp: mentries_def)

lemma wf_edge01: "wf_graph edge01"
  by (auto simp: wf_graph_def edge01_def from_coo_def split: if_splits)

section \<open>The multi-source form\<close>

text \<open>C9 (as the code has it; the multi-source Level-BFS engine is modelled from the
  spec): for a list of nodes of the graph, the multi-source call raises \<open>Unbounded\<close>
  exactly when the single-source call (without cutoff) does for one of the listed nodes.
  Otherwise, when the result is not expanded (\<open>expand_output\<close> is false, or the list
  has as many elements as the graph has nodes), row \<open>i\<close> is the single-source result
  of \<open>nodes[i]\<close>; and when \<open>expand_output\<close> is true and the list has fewer elements
  than the graph has nodes, none of them twice, the matrix is \<open>n \<times> n\<close>, row
  \<open>nodes[i]\<close> is the single-source result of \<open>nodes[i]\<close> and every other row is
  empty. Without a node list the call is the call for the list of all nodes.\<close>

theorem matrix_form_rows:
  assumes "wf_graph G" and "list_all (\<lambda>i. i < nnodes G) ns"
  shows "(bellman_ford_path_lengths G (Some ns) ex = Inl Unbounded \<longleftrightarrow>
       (\<exists>i<length ns. single_source_bellman_ford_path_length G (ns ! i) None = Inl Unbounded)) \<and>
     (\<forall>M. (\<not> ex \<or> length ns = nnodes G) \<and> bellman_ford_path_lengths G (Some ns) ex = Inr M \<longrightarrow>
        mrows M = length ns \<and> mcols M = nnodes G \<and>
        (\<forall>i<length ns. single_source_bellman_ford_path_length G (ns ! i) None =
           Inr (mrow M i))) \<and>
     (\<forall>M. distinct ns \<and> length ns < nnodes G \<and>
          bellman_ford_path_lengths G (Some ns) True = Inr M \<longrightarrow>
        mrows M = nnodes G \<and> mcols M = nnodes G \<and>
        (\<forall>i<length ns. single_source_bellman_ford_path_length G (ns ! i) None =
           Inr (mrow M (ns ! i))) \<and>
        (\<forall>r. r \<notin> set ns \<longrightarrow> mrow M r = (\<lambda>j. None))) \<and>
     bellman_ford_path_lengths G None ex =
       bellman_ford_path_lengths G (Some [0..<nnodes G]) False"
proof (intro conjI allI impI)
  show "bellman_ford_path_lengths G (Some ns) ex = Inl Unbounded \<longleftrightarrow>
       (\<exists>i<length ns. single_source_bellman_ford_path_length G (ns ! i) None = Inl Unbounded)"
    by (rule matrix_rows(1) [OF assms])
next
  fix M
  assume h: "(\<not> ex \<or> length ns = nnodes G) \<and>
     bellman_ford_path_lengths G (Some ns) ex = Inr M"
  then have "bellman_ford_path_lengths G (Some ns) ex = Inr M" by simp
  from matrix_rows(2) [OF assms this] obtain D where
    D: "\<forall>r<length ns. single_source_bellman_ford_path_length G (ns ! r) None = Inr (D r)"
    and M: "M = (if ex \<and> nnodes G \<noteq> length ns
                then \<lparr>mrows = nnodes G, mcols = nnodes G, mrow = expand_rows ns D\<rparr>
                else \<lparr>mrows = length ns, mcols = nnodes G, mrow = D\<rparr>)"
    by blast
  from h have "\<not> (ex \<and> nnodes G \<noteq> length ns)" by auto
  with M have M': "M = \<lparr>mrows = length ns, mcols = nnodes G, mrow = D\<rparr>" by simp
  show "mrows M = length ns" "mcols M = nnodes G" by (simp_all add: M')
  fix i assume "i < length ns"
  with D show "single_source_bellman_ford_path_length G (ns ! i) None = Inr (mrow M i)"
    by (simp add: M')
next
  fix M
  assume h: "distinct ns \<and> length ns < nnodes G \<and>
     bellman_ford_path_lengths G (Some ns) True = Inr M"
  then have di: "distinct ns" and len: "length ns < nnodes G"
    and r: "bellman_ford_path_lengths G (Some ns) True = Inr M" by simp_all
  from matrix_rows(2) [OF assms r] obtain D where
    D: "\<forall>r<length ns. single_source_bellman_ford_path_length G (ns ! r) None = Inr (D r)"
    and M: "M = (if True \<and> nnodes G \<noteq> length ns
                then \<lparr>mrows = nnodes G, mcols = nnodes G, mrow = expand_rows ns D\<rparr>
                else \<lparr>mrows = length ns, mcols = nnodes G, mrow = D\<rparr>)"
    by blast
  from M len have M': "M = \<lparr>mrows = nnodes G, mcols = nnodes G, mrow = expand_rows ns D\<rparr>"
    by simp
  show "mrows M = nnodes G" "mcols M = nnodes G" by (simp_all add: M')
  {
    fix i assume i: "i < length ns"
    have "mrow M (ns ! i) = D i" using expand_rows_row [OF di i, of D] by (simp add: M')
    with D i show "single_source_bellman_ford_path_length G (ns ! i) None =
        Inr (mrow M (ns ! i))" by simp
  }
  fix r assume "r \<notin> set ns"
  then show "mrow M r = (\<lambda>j. None)" using expand_rows_other [of r ns D] by (simp add: M')
next
  show "bellman_ford_path_lengths G None ex =
       bellman_ford_path_lengths G (Some [0..<nnodes G]) False"
    by (rule all_nodes_rows)
qed

theorem matrix_form_rows_witness:
  "wf_graph triangle \<and> list_all (\<lambda>i. i < nnodes triangle) [1] \<and> distinct [1::nat] \<and>
   length [1::nat] < nnodes triangle \<and>
   mentries (bellman_ford_path_lengths triangle (Some [1]) True) =
     Inr (3, 3, [[None, None, None], [Some 2, Some 0, Some 1], [None, None, None]]) \<and>
   entries 3 (single_source_bellman_ford_path_length triangle 1 None) =
     Inr [Some 2, Some 0, Some 1]"
proof -
  have l: "list_all (\<lambda>i. i < nnodes triangle) [1]" "length [1::nat] < nnodes triangle"
    by (simp_all add: triangle_def)
  have e: "mentries (bellman_ford_path_lengths triangle (Some [1]) True) =
     Inr (3, 3, [[None, None, None], [Some 2, Some 0, Some 1], [None, None, None]])"
    by code_simp
  from mentries_Inr [OF e] obtain M where
    M: "bellman_ford_path_lengths triangle (Some [1]) True = Inr M"
    and r: "\<forall>i<3. map (mrow M i) [0..<3] =
      [[None, None, None], [Some 2, Some 0, Some 1], [None, None, None]] ! i" by blast
  have "(1::nat) < 3" by simp
  with r have "map (mrow M 1) [0..<3] =
      [[None, None, None], [Some 2, Some 0, Some 1], [None, None, None]] ! 1" by blast
  then have r1: "map (mrow M 1) [0..<3] = [Some 2, Some 0, Some 1]" by simp
  have d: "distinct [1::nat] \<and> length [1::nat] < nnodes triangle \<and>
      bellman_ford_path_lengths triangle (Some [1]) True = Inr M"
    using M l(2) by simp
  note mfr = matrix_form_rows [OF wf_triangle l(1), of True]
  from mfr have "\<forall>M. distinct [1::nat] \<and> length [1::nat] < nnodes triangle \<and>
          bellman_ford_path_lengths triangle (Some [1]) True = Inr M \<longrightarrow>
        mrows M = nnodes triangle \<and> mcols M = nnodes triangle \<and>
        (\<forall>i<length [1::nat]. single_source_bellman_ford_path_length triangle ([1] ! i) None =
           Inr (mrow M ([1] ! i))) \<and>
        (\<forall>r. r \<notin> set [1] \<longrightarrow> mrow M r = (\<lambda>j. None))"
    by (rule conjunct2 [THEN conjunct2, THEN conjunct1])
  from this [rule_format, OF d]
  have "\<forall>i<length [1::nat].
      single_source_bellman_ford_path_length triangle ([1] ! i) None = Inr (mrow M ([1] ! i))"
    by (rule conjunct2 [THEN conjunct2, THEN conjunct1])
  then have "single_source_bellman_ford_path_length triangle 1 None = Inr (mrow M 1)"
    by simp
  then have "entries 3 (single_source_bellman_ford_path_length triangle 1 None) =
     Inr [Some 2, Some 0, Some 1]"
    using r1 by (simp add: entries_def)
  with wf_triangle l e show ?thesis by simp
qed

text \<open>C9 fails as stated when the list repeats a node: \<open>[0, 0]\<close> names node 0 only, a
  proper subset of the two nodes, but has as many elements as the graph has nodes, so
  the shape test \<^verbatim>\<open>D.ncols != D.nrows\<close> fails, the result is not expanded, and row 1 is
  a second copy of the distances from node 0 instead of an empty row.\<close>

theorem repeated_node_counterexample:
  "list_all (\<lambda>i. i < nnodes edge01) [0, 0] \<and> (1::nat) < nnodes edge01 \<and>
   (1::nat) \<notin> set [0, 0] \<and>
   mentries (bellman_ford_path_lengths edge01 (Some [0, 0]) True) =
     Inr (2, 2, [[Some 0, Some 1], [Some 0, Some 1]])"
proof -
  have a: "list_all (\<lambda>i. i < nnodes edge01) [0, 0]" by (simp add: edge01_def)
  have b: "(1::nat) < nnodes edge01" by (simp add: edge01_def)
  have c: "(1::nat) \<notin> set [0, 0]" by simp
  have e: "mentries (bellman_ford_path_lengths edge01 (Some [0, 0]) True) =
     Inr (2, 2, [[Some 0, Some 1], [Some 0, Some 1]])" by code_simp
  show ?thesis by (intro conjI a b c e)
qed

lemma has_negative_edges_minus_iff:
  "has_negative_edges_minus G \<longleftrightarrow>
     (\<exists>i<nnodes G. \<exists>j<nnodes G. \<exists>w. offdiag G i j = Some w \<and> w < 0)"
proof -
  have "(case offdiag G i j of Some w \<Rightarrow> w < 0 | None \<Rightarrow> False) \<longleftrightarrow>
      (\<exists>w. offdiag G i j = Some w \<and> w < 0)"
    for i j by (cases "offdiag G i j") auto
  then show ?thesis
    by (simp add: has_negative_edges_minus_def list_ex_iff Bex_def)
qed

lemma nonneg_diag:
  assumes "\<not> has_negative_diagonal G" "j < nnodes G" "adj G j j = Some w"
  shows "0 \<le> w"
proof (rule ccontr)
  assume "\<not> 0 \<le> w"
  with assms(2,3) have "has_negative_diagonal G"
    unfolding has_negative_diagonal_iff by (intro exI [of _ j] exI [of _ w]) simp
  with assms(1) show False ..
qed

lemma seed_bound: "seed G u \<Longrightarrow> u < nnodes G"
  by (simp add: seed_def degrees_def Let_def split: if_splits)

lemma edge_seed:
  assumes wf: "wf_graph G" and e: "adj G u v = Some w" and ne: "u \<noteq> v"
  shows "seed G u"
proof -
  from wf e have uv: "u < nnodes G" "v < nnodes G" unfolding wf_graph_def by auto
  with e ne have "offdiag G u v \<noteq> None" by (simp add: offdiag_def)
  with uv(2) have "\<exists>j\<in>set [0..<nnodes G]. offdiag G u j \<noteq> None" by auto
  then have "0 < row_degree G u"
    unfolding row_degree_def length_greater_0_conv filter_empty_conv by blast
  with uv(1) show ?thesis by (simp add: seed_def degrees_def Let_def)
qed

lemma neg_cycle_seeded:
  assumes wf: "wf_graph G" and nd: "\<not> has_negative_diagonal G"
  shows "is_walk (adj G) cs \<Longrightarrow> last cs = hd cs \<Longrightarrow> walk_weight (adj G) cs < 0 \<Longrightarrow>
     \<exists>cs'. is_walk (adj G) cs' \<and> last cs' = hd cs' \<and> walk_weight (adj G) cs' < 0 \<and>
        seed G (hd cs')"
proof (induction "adj G" cs rule: is_walk.induct)
  case 1
  then show ?case by simp
next
  case (2 v)
  then show ?case by simp
next
  case (3 u v vs)
  from "3.prems"(1) obtain w where e: "adj G u v = Some w" and r: "is_walk (adj G) (v # vs)"
    by auto
  show ?case
  proof (cases "u = v")
    case False
    from edge_seed [OF wf e False] "3.prems" show ?thesis by (intro exI [of _ "u # v # vs"]) simp
  next
    case True
    from wf e have "u < nnodes G" unfolding wf_graph_def by auto
    with nd e True have "0 \<le> w" using nonneg_diag [of G u w] by simp
    with "3.prems"(3) e have "walk_weight (adj G) (v # vs) < 0" by simp
    moreover from "3.prems"(2) True have "last (v # vs) = hd (v # vs)" by simp
    ultimately show ?thesis using "3.hyps" [OF r] by blast
  qed
qed

lemma neg_cycle_from_seed:
  assumes wf: "wf_graph G" and nd: "\<not> has_negative_diagonal G"
  shows "neg_cycle_from (adj G) (seed G) \<longleftrightarrow> neg_cycle G"
proof
  assume "neg_cycle_from (adj G) (seed G)"
  then show "neg_cycle G" unfolding neg_cycle_from_def neg_cycle_def by auto
next
  assume "neg_cycle G"
  then obtain cs where "is_walk (adj G) cs" "last cs = hd cs" "walk_weight (adj G) cs < 0"
    unfolding neg_cycle_def by blast
  from neg_cycle_seeded [OF wf nd this] obtain cs' where
    c: "is_walk (adj G) cs'" "last cs' = hd cs'" "walk_weight (adj G) cs' < 0" "seed G (hd cs')"
    by blast
  show "neg_cycle_from (adj G) (seed G)"
    unfolding neg_cycle_from_def
    using c by (intro exI [of _ "[hd cs']"] exI [of _ cs']) simp
qed

lemma detector_loop:
  assumes wf: "wf_graph G" and nd: "\<not> has_negative_diagonal G"
    and loop: "bf_loop_exact None (nnodes G) (offdiag G) (nnodes G - 1)
       (\<lambda>j. if seed G j then Some 0 else None) (\<lambda>j. if seed G j then Some 0 else None) =
       (b, d, cur)"
  shows "\<not> b \<and> any_lt (nnodes G) (vxm_min_plus_exact (nnodes G) cur (offdiag G)) d \<longleftrightarrow>
     neg_cycle_from (adj G) (seed G)"
proof -
  let ?S = "seed G"
  have S: "\<And>u. ?S u \<Longrightarrow> u < nnodes G" by (rule seed_bound)
  from bf_loop_final [of ?S G None b d cur, OF S loop] obtain k
    where inv: "bf_inv ?S (offdiag G) None (nnodes G) k d cur"
      and fin: "if b then cur = (\<lambda>j. None) else k = nnodes G - 1"
    by auto
  show ?thesis
  proof
    assume a: "\<not> b \<and> any_lt (nnodes G) (vxm_min_plus_exact (nnodes G) cur (offdiag G)) d"
    show "neg_cycle_from (adj G) ?S"
    proof (rule ccontr)
      assume nn: "\<not> neg_cycle_from (adj G) ?S"
      from fin have "k = nnodes G - 1 \<or> cur = (\<lambda>j. None)" by (cases b) simp_all
      from no_final_improve [OF wf S nn inv this] a show False
        by (simp add: apply_cutoff_def)
    qed
  next
    assume c: "neg_cycle_from (adj G) ?S"
    show "\<not> b \<and> any_lt (nnodes G) (vxm_min_plus_exact (nnodes G) cur (offdiag G)) d"
    proof (rule ccontr)
      assume n: "\<not> (\<not> b \<and> any_lt (nnodes G) (vxm_min_plus_exact (nnodes G) cur (offdiag G)) d)"
      have cl: "bf_closed (offdiag G) None d"
      proof (cases b)
        case True
        with inv fin show ?thesis by (simp add: bf_inv_closed)
      next
        case False
        with n fin inv show ?thesis
          using exhausted_closed [of G ?S d cur] wf S by simp
      qed
      have dn: "\<And>j. d j \<noteq> None \<Longrightarrow> j < nnodes G"
        using inv unfolding bf_inv_def by auto
      have "0 \<le> w" if "d j \<noteq> None" "adj G j j = Some w" for j w
        using nonneg_diag [OF nd dn [OF that(1)] that(2)] .
      then have nd': "\<forall>j w. d j \<noteq> None \<and> adj G j j = Some w \<longrightarrow> 0 \<le> w" by blast
      have "d u \<noteq> None" if "?S u" for u
        using bf_inv_seeds [OF inv that] by auto
      then have "\<forall>u. ?S u \<longrightarrow> d u \<noteq> None" by blast
      from closed_no_neg_cycle [of G d ?S, OF wf cl nd' this] c show False by simp
    qed
  qed
qed

lemma nec_loop_bf:
  "nec_loop b n A k d cur =
     (case bf_loop b None n A k d cur of
        (br, d', cur') \<Rightarrow> \<not> br \<and> any_lt n (vxm_min_plus b n cur' A) d')"
proof (induction k arbitrary: d cur)
  case 0
  show ?case by simp
next
  case (Suc k)
  have r: "bf_round b None n A d cur =
      keep_masked (improve_mask (vxm_min_plus b n cur A) d) (vxm_min_plus b n cur A)"
    by (simp add: bf_round_def apply_cutoff_def Let_def)
  show ?case
    by (simp add: Let_def r [symmetric] Suc.IH)
qed

lemma no_negative_edges_no_cycle:
  assumes wf: "wf_graph G" and nd: "\<not> has_negative_diagonal G"
    and ne: "\<not> has_negative_edges_minus G"
  shows "\<not> neg_cycle G"
proof -
  have "0 \<le> x" if e: "adj G i j = Some x" for i j x
  proof -
    from wf e have ij: "i < nnodes G" "j < nnodes G" unfolding wf_graph_def by auto
    show ?thesis
    proof (cases "i = j")
      case True
      with e ij show ?thesis using nonneg_diag [OF nd, of i x] by simp
    next
      case False
      with e ij have "offdiag G i j = Some x" by (simp add: offdiag_def)
      show ?thesis
      proof (rule ccontr)
        assume "\<not> 0 \<le> x"
        with \<open>offdiag G i j = Some x\<close> ij have "has_negative_edges_minus G"
          unfolding has_negative_edges_minus_iff by force
        with ne show False ..
      qed
    qed
  qed
  then have "\<forall>i j x. adj G i j = Some x \<longrightarrow> 0 \<le> x" by blast
  from nonneg_weight [OF this] show ?thesis by (auto simp: neg_cycle_def not_less)
qed

lemma negative_diagonal_cycle: "has_negative_diagonal G \<Longrightarrow> neg_cycle G"
  unfolding has_negative_diagonal_iff neg_cycle_def
  by (elim exE conjE, rule_tac x = "[j, j]" in exI) simp

lemma detector_eq:
  assumes f: "fits G W" and n: "0 < nnodes G"
    and loop: "bf_loop_exact None (nnodes G) (offdiag G) (nnodes G - 1)
       (\<lambda>j. if seed G j then Some 0 else None) (\<lambda>j. if seed G j then Some 0 else None) =
       (b, d, cur)"
  shows "nec_loop (bits G) (nnodes G) (offdiag G) (nnodes G - 1)
       (\<lambda>j. if seed G j then Some 0 else None) (\<lambda>j. if seed G j then Some 0 else None) \<longleftrightarrow>
     \<not> b \<and> any_lt (nnodes G) (vxm_min_plus_exact (nnodes G) cur (offdiag G)) d"
proof -
  let ?n = "nnodes G" and ?b = "bits G" and ?A = "offdiag G"
  let ?d0 = "\<lambda>j. if seed G j then Some (0::int) else None"
  from f have b: "0 < ?b" and W: "0 \<le> W" and nW: "int ?n * W < 2 ^ (?b - 1)"
    by (simp_all add: fits_def)
  note Wb = fits_offdiag [OF f]
  have d0: "bounded_vec 0 ?d0" by (simp add: bounded_vec_def)
  have nn: "int (?n - 1) * W + W = int ?n * W"
    using n by (simp add: algebra_simps of_nat_diff)
  then have k: "0 + int (?n - 1) * W < 2 ^ (?b - 1)" using nW W by linarith
  from bf_loop_eq [OF b Wb W d0 d0 k, of None ?n] loop
  have l: "bf_loop ?b None ?n ?A (?n - 1) ?d0 ?d0 = (b, d, cur)"
    and cb: "bounded_vec (int (?n - 1) * W) cur"
    by simp_all
  from vxm_eq_bounded [OF b cb Wb] nn nW
  have "vxm_min_plus ?b ?n cur ?A = vxm_min_plus_exact ?n cur ?A" by simp
  with l show ?thesis by (simp add: nec_loop_bf)
qed

lemma detector_correct:
  assumes wf: "wf_graph G" and f: "fits G W"
  shows "negative_edge_cycle G \<longleftrightarrow> neg_cycle G"
proof (cases "has_negative_diagonal G")
  case True
  with negative_diagonal_cycle [OF True] show ?thesis by (simp add: negative_edge_cycle_def)
next
  case nd: False
  show ?thesis
  proof (cases "has_negative_edges_minus G")
    case False
    with nd no_negative_edges_no_cycle [OF wf nd False] show ?thesis
      by (simp add: negative_edge_cycle_def)
  next
    case True
    then have n: "0 < nnodes G" by (auto simp: has_negative_edges_minus_iff)
    obtain b d cur where
      loop: "bf_loop_exact None (nnodes G) (offdiag G) (nnodes G - 1)
       (\<lambda>j. if seed G j then Some 0 else None) (\<lambda>j. if seed G j then Some 0 else None) =
       (b, d, cur)"
      using prod_cases3 by blast
    have "negative_edge_cycle G \<longleftrightarrow>
        nec_loop (bits G) (nnodes G) (offdiag G) (nnodes G - 1)
          (\<lambda>j. if seed G j then Some 0 else None) (\<lambda>j. if seed G j then Some 0 else None)"
      using nd True by (simp add: negative_edge_cycle_def seed_def Let_def)
    with detector_eq [OF f n loop] detector_loop [OF wf nd loop]
      neg_cycle_from_seed [OF wf nd]
    show ?thesis by simp
  qed
qed

lemma wf_int8_two_cycle: "wf_graph int8_two_cycle"
  by (auto simp: wf_graph_def int8_two_cycle_def from_coo_def split: if_splits)

lemma wf_late_cycle: "wf_graph late_cycle"
  by (auto simp: wf_graph_def late_cycle_def from_coo_def split: if_splits)

lemma no_negative_edges:
  assumes "\<not> has_negative_edges_plus G"
  shows "\<not> has_negative_diagonal G" and "\<not> has_negative_edges_minus G"
proof -
  show "\<not> has_negative_diagonal G"
    using assms unfolding has_negative_edges_plus_iff has_negative_diagonal_iff by blast
  show "\<not> has_negative_edges_minus G"
    using assms unfolding has_negative_edges_plus_iff has_negative_edges_minus_iff
    by (auto simp: offdiag_def split: if_splits)
qed

lemma neg_cycle_two_cycle: "neg_cycle two_cycle"
  unfolding neg_cycle_def
  by (intro exI [of _ "[0, 1, 0]"]) (simp add: two_cycle_def from_coo_def)

section \<open>The global detector\<close>

text \<open>C3 (as the code has it): on a graph whose signed integer dtype is wide enough for
  the weights, \<open>negative_edge_cycle\<close> returns true exactly when some closed walk of the
  graph has negative weight. It answers true when a self-loop is negative, false when no
  edge is negative, and otherwise runs the relaxation from 0 at every node with an entry
  in the degree vector.\<close>

theorem negative_edge_cycle_iff:
  assumes "wf_graph G" and "fits G W"
  shows "(negative_edge_cycle G \<longleftrightarrow> neg_cycle G) \<and>
     (has_negative_diagonal G \<longrightarrow> negative_edge_cycle G) \<and>
     (\<not> has_negative_edges_plus G \<longrightarrow> \<not> negative_edge_cycle G) \<and>
     (\<not> has_negative_diagonal G \<and> has_negative_edges_minus G \<longrightarrow>
        negative_edge_cycle G =
          nec_loop (bits G) (nnodes G) (offdiag G) (nnodes G - 1)
            (\<lambda>j. if seed G j then Some 0 else None) (\<lambda>j. if seed G j then Some 0 else None))"
proof (intro conjI impI)
  show "negative_edge_cycle G \<longleftrightarrow> neg_cycle G" by (rule detector_correct [OF assms])
  show "negative_edge_cycle G" if "has_negative_diagonal G"
    using that by (simp add: negative_edge_cycle_def)
  show "\<not> negative_edge_cycle G" if "\<not> has_negative_edges_plus G"
    using no_negative_edges [OF that] by (simp add: negative_edge_cycle_def)
  show "negative_edge_cycle G =
          nec_loop (bits G) (nnodes G) (offdiag G) (nnodes G - 1)
            (\<lambda>j. if seed G j then Some 0 else None) (\<lambda>j. if seed G j then Some 0 else None)"
    if "\<not> has_negative_diagonal G \<and> has_negative_edges_minus G"
    using that by (simp add: negative_edge_cycle_def seed_def Let_def)
qed

theorem negative_edge_cycle_iff_witness:
  "wf_graph two_cycle \<and> fits two_cycle 3 \<and> negative_edge_cycle two_cycle \<and>
   neg_cycle two_cycle \<and>
   wf_graph triangle \<and> fits triangle 1 \<and> \<not> negative_edge_cycle triangle \<and>
   \<not> neg_cycle triangle"
proof -
  have a: "negative_edge_cycle two_cycle" by code_simp
  with negative_edge_cycle_iff [OF wf_two_cycle fits_two_cycle] have b: "neg_cycle two_cycle"
    by blast
  have c: "\<not> negative_edge_cycle triangle" by code_simp
  with negative_edge_cycle_iff [OF wf_triangle fits_triangle] have d: "\<not> neg_cycle triangle"
    by blast
  from a b c d wf_two_cycle fits_two_cycle wf_triangle fits_triangle show ?thesis by blast
qed

text \<open>C3 fails as stated when a sum leaves the dtype: with 8-bit weights the 2-cycle
  \<open>0\<rightarrow>1:-100, 1\<rightarrow>0:-100\<close> has weight -200, but the check after the loop compares
  \<open>-100 + -100\<close> wrapped around, 56, with -100, finds no improvement, and the
  detector returns false.\<close>

theorem narrow_dtype_detector_counterexample:
  "wf_graph int8_two_cycle \<and> neg_cycle int8_two_cycle \<and>
   \<not> negative_edge_cycle int8_two_cycle"
proof -
  have a: "neg_cycle int8_two_cycle"
    unfolding neg_cycle_def
    by (intro exI [of _ "[0, 1, 0]"]) (simp add: int8_two_cycle_def from_coo_def)
  have b: "\<not> negative_edge_cycle int8_two_cycle" by code_simp
  from wf_int8_two_cycle a b show ?thesis by blast
qed

section \<open>How a negative cycle is reported\<close>

text \<open>C5 (as the code has it): on a graph whose signed integer dtype is wide enough for
  the weights, the single-source call without a cutoff raises \<open>Unbounded\<close> when a
  negative cycle is reachable from the source, the multi-source call raises it when a
  negative cycle is reachable from one of the listed nodes, and the global detector
  returns the value true when the graph has a negative cycle.\<close>

theorem negative_cycle_reported:
  assumes "wf_graph G" and "fits G W" and "list_all (\<lambda>i. i < nnodes G) ns"
  shows "(\<forall>s. s < nnodes G \<and> neg_cycle_reachable G s \<longrightarrow>
        single_source_bellman_ford_path_length G s None = Inl Unbounded) \<and>
     ((\<exists>i<length ns. neg_cycle_reachable G (ns ! i)) \<longrightarrow>
        bellman_ford_path_lengths G (Some ns) ex = Inl Unbounded) \<and>
     (neg_cycle G \<longrightarrow> negative_edge_cycle G)"
proof -
  have s: "single_source_bellman_ford_path_length G s None = Inl Unbounded"
    if "s < nnodes G" "neg_cycle_reachable G s" for s
    using single_source_raise_iff [OF assms(1) that(1)] that(2)
    by (simp add: single_source_exact_eq [OF assms(2)])
  have m: "bellman_ford_path_lengths G (Some ns) ex = Inl Unbounded"
    if "\<exists>i<length ns. neg_cycle_reachable G (ns ! i)"
  proof -
    from that obtain i where i: "i < length ns" "neg_cycle_reachable G (ns ! i)" by blast
    from assms(3) i(1) have "ns ! i < nnodes G" by (simp add: list_all_length)
    from s [OF this i(2)] i(1) show ?thesis
      unfolding matrix_rows(1) [OF assms(1,3)] by blast
  qed
  from s m detector_correct [OF assms(1,2)] show ?thesis by blast
qed

theorem negative_cycle_reported_witness:
  "wf_graph two_cycle \<and> fits two_cycle 3 \<and> list_all (\<lambda>i. i < nnodes two_cycle) [1] \<and>
   (1::nat) < nnodes two_cycle \<and> neg_cycle_reachable two_cycle 1 \<and> neg_cycle two_cycle \<and>
   single_source_bellman_ford_path_length two_cycle 1 None = Inl Unbounded \<and>
   bellman_ford_path_lengths two_cycle (Some [1]) False = Inl Unbounded \<and>
   negative_edge_cycle two_cycle"
proof -
  have n: "(1::nat) < nnodes two_cycle" "list_all (\<lambda>i. i < nnodes two_cycle) [1]"
    by (simp_all add: two_cycle_def)
  have c: "neg_cycle_reachable two_cycle 1"
    unfolding neg_cycle_reachable_def neg_cycle_from_def
    by (intro exI [of _ "[1]"] exI [of _ "[1, 0, 1]"]) (simp add: two_cycle_def from_coo_def)
  note t = negative_cycle_reported [OF wf_two_cycle fits_two_cycle n(2), of False]
  from t n(1) c have r1: "single_source_bellman_ford_path_length two_cycle 1 None = Inl Unbounded"
    by blast
  have "\<exists>i<length [1::nat]. neg_cycle_reachable two_cycle ([1] ! i)" using c by simp
  with t have r2: "bellman_ford_path_lengths two_cycle (Some [1]) False = Inl Unbounded"
    by blast
  from t neg_cycle_two_cycle have r3: "negative_edge_cycle two_cycle" by blast
  from wf_two_cycle fits_two_cycle n c neg_cycle_two_cycle r1 r2 r3 show ?thesis by blast
qed

text \<open>C5 fails as stated in two places. The global detector has no \<^verbatim>\<open>raise\<close>: for a
  graph with a negative cycle it returns the value true. And the single-source call with
  a cutoff can return distances although a negative cycle is reachable: in
  \<open>0\<rightarrow>1:1, 1\<rightarrow>2:1, 2\<rightarrow>1:-3\<close> with source 0 and cutoff 0 the frontier is empty after
  the first round and the call returns \<open>{0: 0}\<close>.\<close>

theorem silent_cycle_counterexample:
  "wf_graph late_cycle \<and> neg_cycle late_cycle \<and> negative_edge_cycle late_cycle = True \<and>
   neg_cycle_reachable late_cycle 0 \<and>
   entries 3 (single_source_bellman_ford_path_length late_cycle 0 (Some 0)) =
     Inr [Some 0, None, None]"
proof -
  have a: "neg_cycle late_cycle"
    unfolding neg_cycle_def
    by (intro exI [of _ "[1, 2, 1]"]) (simp add: late_cycle_def from_coo_def)
  have b: "negative_edge_cycle late_cycle = True" by code_simp
  have c: "neg_cycle_reachable late_cycle 0"
    unfolding neg_cycle_reachable_def neg_cycle_from_def
    by (intro exI [of _ "[0, 1]"] exI [of _ "[1, 2, 1]"]) (simp add: late_cycle_def from_coo_def)
  have d: "entries 3 (single_source_bellman_ford_path_length late_cycle 0 (Some 0)) =
     Inr [Some 0, None, None]" by code_simp
  show ?thesis by (intro conjI wf_late_cycle a b c d)
qed

end
